theory Spec2Isabelle
  imports Main "HOL-Library.Word" "HOL-Library.Monad_Syntax"
begin

unbundle bit_operations_syntax

section \<open>Memory model\<close>

text \<open>
  The library is C for a 64-bit platform: \<open>size_t\<close> is a 64-bit word whose arithmetic
  wraps, a byte is an 8-bit word, a buffer is the list of its bytes. A pointer is
  \<open>Null\<close>, points to freed memory (\<open>Dangling\<close>: it still compares unequal to
  \<open>NULL\<close>) or refers to an object. Every operation that touches memory returns an
  option: \<open>None\<close> stands for undefined behaviour of the C program (a read or write
  outside an array, or through a pointer that is null or dangling). The \<open>assert\<close>
  lines of the functions state what a caller owes (pointers that are not null, lengths
  that are not zero); they are compiled out of a release build and are not part of
  the functions modelled here.
\<close>

type_synonym byte = "8 word"
type_synonym size_t = "64 word"
type_synonym uint64_t = "64 word"

datatype 'a pointer = Null | Dangling | Ref 'a

fun deref :: "'a pointer \<Rightarrow> 'a option" where
  "deref (Ref x) = Some x"
| "deref Null = None"
| "deref Dangling = None"

definition nth_opt :: "'a list \<Rightarrow> nat \<Rightarrow> 'a option" where
  "nth_opt xs i = (if i < length xs then Some (xs ! i) else None)"

definition upd_opt :: "'a list \<Rightarrow> nat \<Rightarrow> 'a \<Rightarrow> 'a list option" where
  "upd_opt xs i v = (if i < length xs then Some (xs[i := v]) else None)"

text \<open>
  Modelled from the spec: the bodies of \<open>qsc_memutils_copy\<close>, \<open>qsc_memutils_clear\<close>
  and \<open>qsc_memutils_aligned_free\<close> (\<open>memutils.c\<close>) are missing. The spec has slots
  copied to the output and removed or cleared slots zero-wiped, and the calls pass a
  destination, a source and a byte count: \<open>qsc_memutils_copy dst src n\<close> makes the
  first \<open>n\<close> bytes of \<open>dst\<close> the first \<open>n\<close> bytes of \<open>src\<close>,
  \<open>qsc_memutils_clear dst n\<close> sets the first \<open>n\<close> bytes of \<open>dst\<close> to zero, and
  \<open>qsc_memutils_aligned_free\<close> releases a block (a null pointer is left alone, a
  pointer to freed memory must not be freed again). \<open>copy_at\<close> is the copy to
  \<open>dst + off\<close>.
\<close>

definition qsc_memutils_copy :: "byte list \<Rightarrow> byte list \<Rightarrow> nat \<Rightarrow> byte list option" where
  "qsc_memutils_copy dst src n =
     (if n \<le> length dst \<and> n \<le> length src then Some (take n src @ drop n dst) else None)"

definition qsc_memutils_clear :: "byte list \<Rightarrow> nat \<Rightarrow> byte list option" where
  "qsc_memutils_clear dst n =
     (if n \<le> length dst then Some (replicate n 0 @ drop n dst) else None)"

definition qsc_memutils_aligned_free :: "'a pointer \<Rightarrow> 'a pointer option" where
  "qsc_memutils_aligned_free p = (case p of Null \<Rightarrow> Some Null | Dangling \<Rightarrow> None | Ref x \<Rightarrow> Some Dangling)"

definition copy_at :: "byte list \<Rightarrow> nat \<Rightarrow> byte list \<Rightarrow> nat \<Rightarrow> byte list option" where
  "copy_at dst off src n =
     (if off + n \<le> length dst \<and> n \<le> length src
      then Some (take off dst @ take n src @ drop (off + n) dst) else None)"

section \<open>The queue\<close>

text \<open>
  Modelled from the spec: the declaration of \<open>qsc_queue_state\<close> and the constant
  \<open>QSC_QUEUE_MAX_DEPTH\<close> (\<open>queue.h\<close>) are missing. The spec has a fixed-depth array of
  fixed-width byte slots, each with an attached 64-bit tag; the functions use the
  fields below, with \<open>queue\<close> a pointer to an array of pointers to slots. The array
  \<open>tags\<close> has \<open>QSC_QUEUE_MAX_DEPTH\<close> entries, so the constant is the length of the
  list \<open>tags\<close>, whatever its value.
\<close>

record qsc_queue_state =
  queue :: "byte list pointer list pointer"
  tags :: "uint64_t list"
  count :: size_t
  depth :: size_t
  position :: size_t
  width :: size_t

definition QSC_QUEUE_MAX_DEPTH :: "qsc_queue_state \<Rightarrow> nat" where
  "QSC_QUEUE_MAX_DEPTH ctx = length (tags ctx)"

text \<open>The slot \<open>queue[i]\<close>, read through both pointers.\<close>

definition slot :: "byte list pointer list \<Rightarrow> nat \<Rightarrow> byte list option" where
  "slot q i = do { p \<leftarrow> nth_opt q i; deref p }"

text \<open>
  \<open>qsc_memutils_clear((uint8_t*)ctx->tags, n)\<close> clears the first \<open>n\<close> bytes of the
  tag array, not its first \<open>n\<close> tags: tag \<open>j\<close> occupies the bytes \<open>8 j .. 8 j + 7\<close>,
  the low-order byte first (little-endian, as on the x86 targets of the library).
\<close>

definition clear_tag_bytes :: "uint64_t list \<Rightarrow> nat \<Rightarrow> uint64_t list" where
  "clear_tag_bytes ts n =
     map (\<lambda>(j, t). if 8 * (j + 1) \<le> n then 0
                    else if 8 * j < n then push_bit (8 * (n - 8 * j)) (drop_bit (8 * (n - 8 * j)) t)
                    else t)
         (enumerate 0 ts)"

text \<open>
  \<open>qsc_queue_destroy\<close>. The loop clears and frees every slot that is not null; then
  the slot array is freed (the field keeps the stale address; freeing a null pointer
  does nothing, freeing a stale address is undefined), all \<open>sizeof(ctx->tags)\<close>
  bytes of the tags are cleared and the four counters are zeroed.
\<close>

function destroy_loop :: "nat \<Rightarrow> nat \<Rightarrow> nat \<Rightarrow> byte list pointer list pointer
    \<Rightarrow> byte list pointer list pointer option" where
  "destroy_loop w n i qp =
     (if i < n then do {
        q \<leftarrow> deref qp;
        p \<leftarrow> nth_opt q i;
        (if p \<noteq> Null then do {
           buf \<leftarrow> deref p;
           buf' \<leftarrow> qsc_memutils_clear buf w;
           p' \<leftarrow> qsc_memutils_aligned_free (Ref buf');
           destroy_loop w n (i + 1) (Ref (q[i := p']))
         } else destroy_loop w n (i + 1) qp)
      } else Some qp)"
  by pat_completeness auto
termination
  by (relation "measure (\<lambda>(w, n, i, qp). n - i)") auto

declare destroy_loop.simps [simp del]

definition qsc_queue_destroy :: "qsc_queue_state \<Rightarrow> qsc_queue_state option" where
  "qsc_queue_destroy ctx = do {
     qp \<leftarrow> destroy_loop (unat (width ctx)) (unat (depth ctx)) 0 (queue ctx);
     qp' \<leftarrow> qsc_memutils_aligned_free qp;
     Some (ctx\<lparr>queue := qp',
               tags := replicate (length (tags ctx)) 0,
               count := 0, depth := 0, position := 0, width := 0\<rparr>)
   }"

text \<open>
  \<open>qsc_queue_flush\<close>: slot \<open>i\<close> is copied to \<open>output + i * width\<close> (the product is
  computed in \<open>size_t\<close>) and cleared, for every \<open>i\<close> below \<open>position\<close>.
\<close>

function flush_loop :: "size_t \<Rightarrow> nat \<Rightarrow> nat \<Rightarrow> byte list pointer list pointer \<times> byte list
    \<Rightarrow> (byte list pointer list pointer \<times> byte list) option" where
  "flush_loop w n i (qp, out) =
     (if i < n then do {
        q \<leftarrow> deref qp;
        p \<leftarrow> nth_opt q i;
        (if p \<noteq> Null then do {
           buf \<leftarrow> deref p;
           out' \<leftarrow> copy_at out (unat (word_of_nat i * w)) buf (unat w);
           buf' \<leftarrow> qsc_memutils_clear buf (unat w);
           flush_loop w n (i + 1) (Ref (q[i := Ref buf']), out')
         } else flush_loop w n (i + 1) (qp, out))
      } else Some (qp, out))"
  by pat_completeness auto
termination
  by (relation "measure (\<lambda>(w, n, i, s). n - i)") auto

declare flush_loop.simps [simp del]

definition qsc_queue_flush :: "qsc_queue_state \<Rightarrow> byte list \<Rightarrow> (qsc_queue_state \<times> byte list) option" where
  "qsc_queue_flush ctx output =
     (if queue ctx \<noteq> Null then do {
        (qp, out') \<leftarrow> flush_loop (width ctx) (unat (position ctx)) 0 (queue ctx, output);
        Some (ctx\<lparr>queue := qp, count := 0, position := 0,
                  tags := replicate (length (tags ctx)) 0\<rparr>, out')
      } else Some (ctx, output))"

text \<open>
  \<open>qsc_queue_initialize\<close>. The body of \<open>qsc_memutils_aligned_alloc\<close> is missing, so
  the outcome of each allocation is an argument: \<open>alloc_q\<close> tells whether the slot array was
  allocated, \<open>failed\<close> holds the indices of the slots whose allocation returned
  \<open>NULL\<close>. The slot array is requested with \<open>depth * sizeof(uint8_t*)\<close> bytes, a
  product in \<open>size_t\<close>, and holds that many bytes divided by 8 pointers; the loop
  stores \<open>depth\<close> pointers into it. When the slot array is not allocated, nothing
  else of \<open>ctx\<close> is written: the other fields keep what the memory held before.
\<close>

definition qsc_queue_initialize ::
    "qsc_queue_state \<Rightarrow> size_t \<Rightarrow> size_t \<Rightarrow> bool \<Rightarrow> nat set \<Rightarrow> qsc_queue_state option" where
  "qsc_queue_initialize ctx depth' width' alloc_q failed =
     (if alloc_q then
        (if unat depth' \<le> unat (depth' * 8) div 8 then
           Some (ctx\<lparr>queue := Ref (map (\<lambda>i. if i \<in> failed then Null else Ref (replicate (unat width') 0))
                                      [0..<unat depth']),
                     count := 0, depth := depth', position := 0,
                     tags := clear_tag_bytes (tags ctx) (QSC_QUEUE_MAX_DEPTH ctx),
                     width := width'\<rparr>)
         else None)
      else Some (ctx\<lparr>queue := Null\<rparr>))"

definition qsc_queue_items :: "qsc_queue_state \<Rightarrow> size_t" where
  "qsc_queue_items ctx = count ctx"

definition qsc_queue_isfull :: "qsc_queue_state \<Rightarrow> bool" where
  "qsc_queue_isfull ctx = (count ctx = depth ctx)"

definition qsc_queue_isempty :: "qsc_queue_state \<Rightarrow> bool" where
  "qsc_queue_isempty ctx = (count ctx = 0)"

text \<open>
  \<open>qsc_queue_pop\<close>. The loop moves slot \<open>i\<close> and tag \<open>i\<close> to index \<open>i - 1\<close> for
  \<open>i\<close> from 1 below \<open>count\<close>. The result is the tag, the new state and the output
  buffer.
\<close>

function pop_loop :: "nat \<Rightarrow> nat \<Rightarrow> nat \<Rightarrow> byte list pointer list \<times> uint64_t list
    \<Rightarrow> (byte list pointer list \<times> uint64_t list) option" where
  "pop_loop w n i (q, ts) =
     (if i < n then do {
        dst \<leftarrow> slot q (i - 1);
        src \<leftarrow> slot q i;
        dst' \<leftarrow> qsc_memutils_copy dst src w;
        t \<leftarrow> nth_opt ts i;
        ts' \<leftarrow> upd_opt ts (i - 1) t;
        pop_loop w n (i + 1) (q[i - 1 := Ref dst'], ts')
      } else Some (q, ts))"
  by pat_completeness auto
termination
  by (relation "measure (\<lambda>(w, n, i, s). n - i)") auto

declare pop_loop.simps [simp del]

definition qsc_queue_pop ::
    "qsc_queue_state \<Rightarrow> byte list \<Rightarrow> size_t \<Rightarrow> (uint64_t \<times> qsc_queue_state \<times> byte list) option" where
  "qsc_queue_pop ctx output outlen =
     (if \<not> qsc_queue_isempty ctx \<and> outlen \<le> width ctx then do {
        q \<leftarrow> deref (queue ctx);
        s0 \<leftarrow> slot q 0;
        output' \<leftarrow> qsc_memutils_copy output s0 (unat outlen);
        s0' \<leftarrow> qsc_memutils_clear s0 (unat (width ctx));
        tag \<leftarrow> nth_opt (tags ctx) (unat (position ctx - 1));
        (q1, ts1) \<leftarrow> (if count ctx > 1
                       then pop_loop (unat (width ctx)) (unat (count ctx)) 1 (q[0 := Ref s0'], tags ctx)
                       else Some (q[0 := Ref s0'], tags ctx));
        last' \<leftarrow> slot q1 (unat (position ctx - 1));
        last'' \<leftarrow> qsc_memutils_clear last' (unat (width ctx));
        ts2 \<leftarrow> upd_opt ts1 (unat (position ctx - 1)) 0;
        Some (tag,
              ctx\<lparr>queue := Ref (q1[unat (position ctx - 1) := Ref last'']), tags := ts2,
                  count := count ctx - 1, position := position ctx - 1\<rparr>,
              output')
      } else Some (0, ctx, output))"

definition qsc_queue_push ::
    "qsc_queue_state \<Rightarrow> byte list \<Rightarrow> size_t \<Rightarrow> uint64_t \<Rightarrow> qsc_queue_state option" where
  "qsc_queue_push ctx input inlen tag =
     (if \<not> qsc_queue_isfull ctx \<and> inlen \<le> width ctx then do {
        q \<leftarrow> deref (queue ctx);
        s \<leftarrow> slot q (unat (position ctx));
        s' \<leftarrow> qsc_memutils_copy s input (unat inlen);
        ts' \<leftarrow> upd_opt (tags ctx) (unat (position ctx)) tag;
        Some (ctx\<lparr>queue := Ref (q[unat (position ctx) := Ref s']), tags := ts',
                  position := position ctx + 1, count := count ctx + 1\<rparr>)
      } else Some ctx)"

text \<open>
  The states a queue is meant to be in: the slot array is allocated and holds
  \<open>depth\<close> slots, every slot is allocated and \<open>width\<close> bytes long, \<open>count\<close> and
  \<open>position\<close> agree and do not exceed \<open>depth\<close>, and \<open>depth\<close> does not exceed the
  length of the tag array.
\<close>

definition slot_ok :: "nat \<Rightarrow> byte list pointer \<Rightarrow> bool" where
  "slot_ok w p = (case p of Ref b \<Rightarrow> length b = w | Null \<Rightarrow> False | Dangling \<Rightarrow> False)"

definition queue_inv :: "qsc_queue_state \<Rightarrow> bool" where
  "queue_inv ctx =
     ((case queue ctx of
         Ref q \<Rightarrow> length q = unat (depth ctx) \<and> list_all (slot_ok (unat (width ctx))) q
       | Null \<Rightarrow> False | Dangling \<Rightarrow> False) \<and>
      count ctx = position ctx \<and> count ctx \<le> depth ctx \<and> unat (depth ctx) \<le> length (tags ctx))"

text \<open>
  A caller's use of the queue: one operation after another on the same state. An
  operation that is undefined leaves no state to continue from.
\<close>

datatype queue_op =
    Initialize size_t size_t bool "nat set"
  | Push "byte list" size_t uint64_t
  | Pop "byte list" size_t
  | Flush "byte list"
  | Destroy

fun apply_op :: "qsc_queue_state \<Rightarrow> queue_op \<Rightarrow> qsc_queue_state option" where
  "apply_op ctx (Initialize d w alloc_q failed) = qsc_queue_initialize ctx d w alloc_q failed"
| "apply_op ctx (Push input inlen tag) = qsc_queue_push ctx input inlen tag"
| "apply_op ctx (Pop output outlen) = map_option (\<lambda>(t, ctx', out). ctx') (qsc_queue_pop ctx output outlen)"
| "apply_op ctx (Flush output) = map_option fst (qsc_queue_flush ctx output)"
| "apply_op ctx Destroy = qsc_queue_destroy ctx"

fun run :: "qsc_queue_state \<Rightarrow> queue_op list \<Rightarrow> qsc_queue_state option" where
  "run ctx [] = Some ctx"
| "run ctx (x # xs) = do { ctx' \<leftarrow> apply_op ctx x; run ctx' xs }"

text \<open>
  Concrete states, for a tag array of 64 entries: a zero-filled structure; a structure
  never written, holding whatever the memory held; the queue of depth 2 and width 2
  after \<open>qsc_queue_initialize\<close>; and that queue after the pushes of the items
  \<open>[1, 2]\<close> with tag 10 and \<open>[3, 4]\<close> with tag 20.
\<close>

definition zero_ctx :: qsc_queue_state where
  "zero_ctx = \<lparr>queue = Null, tags = replicate 64 0, count = 0, depth = 0, position = 0, width = 0\<rparr>"

definition unwritten_ctx :: qsc_queue_state where
  "unwritten_ctx = \<lparr>queue = Dangling, tags = replicate 64 0xCCCCCCCCCCCCCCCC,
                     count = 3, depth = 7, position = 5, width = 1\<rparr>"

definition empty_2x2 :: qsc_queue_state where
  "empty_2x2 = \<lparr>queue = Ref [Ref [0, 0], Ref [0, 0]], tags = replicate 64 0,
                 count = 0, depth = 2, position = 0, width = 2\<rparr>"

definition two_items :: qsc_queue_state where
  "two_items = \<lparr>queue = Ref [Ref [1, 2], Ref [3, 4]], tags = 10 # 20 # replicate 62 0,
                 count = 2, depth = 2, position = 2, width = 2\<rparr>"

text \<open>
  A queue after \<open>qsc_queue_destroy\<close>: the slot array is freed and the counters are
  zero.
\<close>

definition destroyed :: "qsc_queue_state \<Rightarrow> bool" where
  "destroyed ctx = (queue ctx = Dangling \<and> count ctx = 0 \<and> depth ctx = 0 \<and> position ctx = 0)"

text \<open>
  What a caller owes across a sequence of calls. The queue is \<open>Unwritten\<close> before
  the first \<open>qsc_queue_initialize\<close>, \<open>Live d w\<close> with depth \<open>d\<close> and width \<open>w\<close>
  after one, \<open>Destroyed\<close> after \<open>qsc_queue_destroy\<close>. \<open>call_ok m s x\<close> is the
  condition on the call \<open>x\<close> in the situation \<open>s\<close>, with \<open>m\<close> the number of entries of
  the tag array, and gives the situation after the call:
  \<^item> \<open>qsc_queue_initialize\<close>: the slot array and every slot are allocated, and the
    depth is at most \<open>m\<close> and below \<open>2 ^ 61\<close>;
  \<^item> on a live queue, the input of a push holds \<open>inlen\<close> bytes, the output of a pop
    holds \<open>outlen\<close> bytes, the output of a flush holds \<open>depth * width\<close> bytes;
  \<^item> \<open>qsc_queue_destroy\<close> is called on a live queue only;
  \<^item> nothing but \<open>qsc_queue_initialize\<close> is called on an unwritten structure.
  \<open>in_lifecycle m s ctx\<close> says what the state \<open>ctx\<close> is like in the situation \<open>s\<close>.
\<close>

datatype lifecycle = Unwritten | Live nat nat | Destroyed

fun call_ok :: "nat \<Rightarrow> lifecycle \<Rightarrow> queue_op \<Rightarrow> lifecycle option" where
  "call_ok m s (Initialize d w alloc_q failed) =
     (if alloc_q \<and> failed \<inter> {..<unat d} = {} \<and> unat d \<le> m \<and> unat d < 2 ^ 61
      then Some (Live (unat d) (unat w)) else None)"
| "call_ok m (Live d w) (Push input inlen tag) =
     (if unat inlen \<le> length input then Some (Live d w) else None)"
| "call_ok m (Live d w) (Pop output outlen) =
     (if unat outlen \<le> length output then Some (Live d w) else None)"
| "call_ok m (Live d w) (Flush output) =
     (if d * w \<le> length output then Some (Live d w) else None)"
| "call_ok m (Live d w) Destroy = Some Destroyed"
| "call_ok m Destroyed (Push input inlen tag) = Some Destroyed"
| "call_ok m Destroyed (Pop output outlen) = Some Destroyed"
| "call_ok m Destroyed (Flush output) = Some Destroyed"
| "call_ok m Destroyed Destroy = None"
| "call_ok m Unwritten (Push input inlen tag) = None"
| "call_ok m Unwritten (Pop output outlen) = None"
| "call_ok m Unwritten (Flush output) = None"
| "call_ok m Unwritten Destroy = None"

fun calls_ok :: "nat \<Rightarrow> lifecycle \<Rightarrow> queue_op list \<Rightarrow> bool" where
  "calls_ok m s [] = True"
| "calls_ok m s (x # xs) = (case call_ok m s x of None \<Rightarrow> False | Some s' \<Rightarrow> calls_ok m s' xs)"

fun in_lifecycle :: "nat \<Rightarrow> lifecycle \<Rightarrow> qsc_queue_state \<Rightarrow> bool" where
  "in_lifecycle m Unwritten ctx = (length (tags ctx) = m)"
| "in_lifecycle m (Live d w) ctx =
     (queue_inv ctx \<and> unat (depth ctx) = d \<and> unat (width ctx) = w \<and> length (tags ctx) = m)"
| "in_lifecycle m Destroyed ctx = (destroyed ctx \<and> length (tags ctx) = m)"

text \<open>
  The queue of depth 65 and width 1 after 64 pushes of the item \<open>[7]\<close> with tag 165,
  for a tag array of 64 entries.
\<close>

definition deep_queue :: qsc_queue_state where
  "deep_queue = \<lparr>queue = Ref (replicate 64 (Ref [7]) @ [Ref [0]]), tags = replicate 64 165,
                  count = 64, depth = 65, position = 64, width = 1\<rparr>"

text \<open>
  The queue seen as the list of the items it holds, oldest first, each with its tag:
  \<open>mk_queue d w xs rest\<close> is the state of a queue of depth \<open>d\<close> and width \<open>w\<close>
  whose first slots hold the items of \<open>xs\<close> and whose other slots are zero; the tags
  of the items are followed by \<open>rest\<close>, the entries of the tag array that are not in
  use. \<open>mk_queue_ok\<close> says that the items fit the queue.
\<close>

definition zero_slot :: "nat \<Rightarrow> byte list pointer" where
  "zero_slot w = Ref (replicate w 0)"

definition mk_queue :: "nat \<Rightarrow> nat \<Rightarrow> (byte list \<times> uint64_t) list \<Rightarrow> uint64_t list \<Rightarrow> qsc_queue_state" where
  "mk_queue d w xs rest =
     \<lparr>queue = Ref (map (\<lambda>x. Ref (fst x)) xs @ replicate (d - length xs) (zero_slot w)),
      tags = map snd xs @ rest,
      count = word_of_nat (length xs), depth = word_of_nat d,
      position = word_of_nat (length xs), width = word_of_nat w\<rparr>"

definition mk_queue_ok :: "nat \<Rightarrow> nat \<Rightarrow> (byte list \<times> uint64_t) list \<Rightarrow> uint64_t list \<Rightarrow> bool" where
  "mk_queue_ok d w xs rest =
     (length xs \<le> d \<and> d < 2 ^ 64 \<and> w < 2 ^ 64 \<and> d \<le> length xs + length rest \<and>
      list_all (\<lambda>x. length (fst x) = w) xs)"

text \<open>
  The loops of \<open>qsc_queue_self_test\<close>: every item is pushed with its tag; every pop
  goes to a zeroed buffer of its own. \<open>test_item i\<close> is the row \<open>exp[i]\<close> of the test,
  \<open>exp[i][j] = (uint8_t)(i + j)\<close>, and item \<open>i\<close> is pushed with tag \<open>i\<close>.
\<close>

fun push_items :: "qsc_queue_state \<Rightarrow> size_t \<Rightarrow> (byte list \<times> uint64_t) list \<Rightarrow> qsc_queue_state option" where
  "push_items ctx inlen [] = Some ctx"
| "push_items ctx inlen (x # xs) = do {
     ctx' \<leftarrow> qsc_queue_push ctx (fst x) inlen (snd x);
     push_items ctx' inlen xs
   }"

fun pop_items :: "qsc_queue_state \<Rightarrow> nat \<Rightarrow> size_t
    \<Rightarrow> ((uint64_t \<times> byte list) list \<times> qsc_queue_state) option" where
  "pop_items ctx 0 outlen = Some ([], ctx)"
| "pop_items ctx (Suc k) outlen = do {
     (tag, ctx', out) \<leftarrow> qsc_queue_pop ctx (replicate (unat outlen) 0) outlen;
     (res, ctx'') \<leftarrow> pop_items ctx' k outlen;
     Some ((tag, out) # res, ctx'')
   }"

definition test_item :: "nat \<Rightarrow> byte list" where
  "test_item i = map (\<lambda>j. word_of_nat (i + j)) [0..<16]"

definition test_items :: "(byte list \<times> uint64_t) list" where
  "test_items = map (\<lambda>i. (test_item i, word_of_nat i)) [0..<64]"

section \<open>The thread pool\<close>

text \<open>
  \<open>pthread_t\<close> is \<open>int\<close> where the platform does not define it. Starting the thread
  is the platform's work: the handle it yields is the argument \<open>handle\<close>, stored in
  \<open>tpool[tcount]\<close>. The array has \<open>QSC_THREADPOOL_THREADS_MAX\<close> entries; a store at
  an index that the array does not have is the fault \<open>Store_outside_array\<close> with that
  index.
\<close>

type_synonym pthread_t = "32 word"

datatype fault = Store_outside_array nat

definition QSC_THREADPOOL_THREADS_MAX :: nat where
  "QSC_THREADPOOL_THREADS_MAX = 1024"

record qsc_threadpool_state =
  tpool :: "pthread_t list"
  tcount :: size_t

definition qsc_threadpool_add_task ::
    "qsc_threadpool_state \<Rightarrow> pthread_t \<Rightarrow> fault + qsc_threadpool_state \<times> bool" where
  "qsc_threadpool_add_task ctx handle =
     (if unat (tcount ctx) \<le> QSC_THREADPOOL_THREADS_MAX then
        (if unat (tcount ctx) < length (tpool ctx)
         then Inr (ctx\<lparr>tpool := (tpool ctx)[unat (tcount ctx) := handle],
                       tcount := tcount ctx + 1\<rparr>, True)
         else Inl (Store_outside_array (unat (tcount ctx))))
      else Inr (ctx, False))"

text \<open>A registry that holds 1024 handles.\<close>

definition full_pool :: qsc_threadpool_state where
  "full_pool = \<lparr>tpool = replicate 1024 7, tcount = 1024\<rparr>"

section \<open>Constants of sha3.h\<close>

definition QSC_KECCAK_CSHAKE_DOMAIN_ID :: byte where
  "QSC_KECCAK_CSHAKE_DOMAIN_ID = 0x04"

definition QSC_KECCAK_KMAC_DOMAIN_ID :: byte where
  "QSC_KECCAK_KMAC_DOMAIN_ID = 0x04"

definition QSC_KECCAK_KPA_DOMAIN_ID :: byte where
  "QSC_KECCAK_KPA_DOMAIN_ID = 0x41"

definition QSC_KECCAK_SHA3_DOMAIN_ID :: byte where
  "QSC_KECCAK_SHA3_DOMAIN_ID = 0x06"

definition QSC_KECCAK_SHAKE_DOMAIN_ID :: byte where
  "QSC_KECCAK_SHAKE_DOMAIN_ID = 0x1F"

definition QSC_KECCAK_STATE_BYTE_SIZE :: nat where
  "QSC_KECCAK_STATE_BYTE_SIZE = 200"

definition QSC_KECCAK_128_RATE :: nat where
  "QSC_KECCAK_128_RATE = 168"

definition QSC_KECCAK_256_RATE :: nat where
  "QSC_KECCAK_256_RATE = 136"

definition QSC_KECCAK_512_RATE :: nat where
  "QSC_KECCAK_512_RATE = 72"

datatype qsc_keccak_rate = qsc_keccak_rate_128 | qsc_keccak_rate_256 | qsc_keccak_rate_512

text \<open>The value of an enumerator of \<open>qsc_keccak_rate\<close>.\<close>

fun rate_value :: "qsc_keccak_rate \<Rightarrow> nat" where
  "rate_value qsc_keccak_rate_128 = QSC_KECCAK_128_RATE"
| "rate_value qsc_keccak_rate_256 = QSC_KECCAK_256_RATE"
| "rate_value qsc_keccak_rate_512 = QSC_KECCAK_512_RATE"

section \<open>Lists, slots and the memory helpers\<close>

lemma list_all_update: "list_all P xs \<Longrightarrow> P x \<Longrightarrow> list_all P (xs[i := x])"
  by (induction xs arbitrary: i) (auto split: nat.splits)

lemma slot_okD: "slot_ok w p \<Longrightarrow> \<exists>b. p = Ref b \<and> length b = w"
  by (cases p) (simp_all add: slot_ok_def)

lemma slot_of_ok:
  assumes "list_all (slot_ok w) q" "i < length q"
  shows "\<exists>b. q ! i = Ref b \<and> length b = w \<and> slot q i = Some b"
proof -
  from assms have "slot_ok w (q ! i)" by (simp add: list_all_length)
  then obtain b where "q ! i = Ref b" "length b = w" using slot_okD by blast
  with assms(2) show ?thesis by (simp add: slot_def nth_opt_def)
qed

lemma copy_whole: "length dst = w \<Longrightarrow> length src = w \<Longrightarrow> qsc_memutils_copy dst src w = Some src"
  by (simp add: qsc_memutils_copy_def)

lemma clear_whole: "length dst = w \<Longrightarrow> qsc_memutils_clear dst w = Some (replicate w 0)"
  by (simp add: qsc_memutils_clear_def)

lemma shift_step:
  assumes "1 \<le> i" "i < n" "n \<le> length xs"
  shows "take i (xs[i - 1 := xs ! i]) @ drop (i + 1) (take n (xs[i - 1 := xs ! i])) @ drop (n - 1) (xs[i - 1 := xs ! i])
       = take (i - 1) xs @ drop i (take n xs) @ drop (n - 1) xs"
proof -
  let ?ys = "xs[i - 1 := xs ! i]"
  have a: "take i ?ys = take (i - 1) xs @ [xs ! i]"
    using assms by (cases i) (simp_all add: take_Suc_conv_app_nth)
  have b: "drop (i + 1) (take n ?ys) = drop (i + 1) (take n xs)"
    using assms by (simp add: take_update_swap)
  have c: "drop (n - 1) ?ys = drop (n - 1) xs"
    using assms by simp
  have d: "drop i (take n xs) = xs ! i # drop (i + 1) (take n xs)"
    using assms Cons_nth_drop_Suc [of i "take n xs"] by simp
  show ?thesis unfolding a b c d by simp
qed

lemma pop_loop_shift:
  assumes "list_all (slot_ok w) q" "1 \<le> i" "i \<le> n" "n \<le> length q" "n \<le> length ts"
  shows "pop_loop w n i (q, ts) =
           Some (take (i - 1) q @ drop i (take n q) @ drop (n - 1) q,
                 take (i - 1) ts @ drop i (take n ts) @ drop (n - 1) ts)"
  using assms
proof (induction "n - i" arbitrary: i q ts)
  case 0
  then have "i = n" by simp
  then show ?case using 0 by (simp add: pop_loop.simps)
next
  case (Suc k)
  then have lt: "i < n" by simp
  from Suc.prems lt have in_range: "i - 1 < length q" "i < length q" by arith+
  obtain dst where dst: "q ! (i - 1) = Ref dst" "length dst = w" "slot q (i - 1) = Some dst"
    using slot_of_ok [OF Suc.prems(1) in_range(1)] by blast
  obtain src where src: "q ! i = Ref src" "length src = w" "slot q i = Some src"
    using slot_of_ok [OF Suc.prems(1) in_range(2)] by blast
  let ?q = "q[i - 1 := q ! i]" and ?ts = "ts[i - 1 := ts ! i]"
  have "slot_ok w (q ! i)"
    using Suc.prems(1) in_range(2) by (simp add: list_all_length)
  with Suc.prems(1) have ok: "list_all (slot_ok w) ?q"
    by (rule list_all_update)
  from Suc.prems lt have in_range_ts: "i - 1 < length ts" "i < length ts" by arith+
  have unfold: "pop_loop w n i (q, ts) = pop_loop w n (i + 1) (?q, ?ts)"
    using lt dst src in_range_ts
    by (subst pop_loop.simps) (simp add: copy_whole nth_opt_def upd_opt_def)
  have "pop_loop w n (i + 1) (?q, ?ts) =
          Some (take (i + 1 - 1) ?q @ drop (i + 1) (take n ?q) @ drop (n - 1) ?q,
                take (i + 1 - 1) ?ts @ drop (i + 1) (take n ?ts) @ drop (n - 1) ?ts)"
    using Suc.hyps(2) Suc.prems lt ok by (intro Suc.hyps(1)) auto
  then show ?case
    using unfold shift_step [of i n q] shift_step [of i n ts] Suc.prems lt by simp
qed


lemma queue_invD:
  assumes "queue_inv ctx"
  shows "\<exists>q. queue ctx = Ref q \<and> length q = unat (depth ctx) \<and>
             list_all (slot_ok (unat (width ctx))) q"
    and "position ctx = count ctx"
    and "unat (count ctx) \<le> unat (depth ctx)"
    and "unat (depth ctx) \<le> length (tags ctx)"
  using assms by (auto simp: queue_inv_def word_le_nat_alt split: pointer.splits)

lemma pop_nonempty:
  assumes inv: "queue_inv ctx" and ne: "\<not> qsc_queue_isempty ctx"
    and le: "outlen \<le> width ctx" and out: "unat outlen \<le> length output"
    and q: "queue ctx = Ref q"
  shows "\<exists>first. slot q 0 = Some first \<and>
           qsc_queue_pop ctx output outlen =
             Some (tags ctx ! (unat (count ctx) - 1),
                   ctx\<lparr>queue := Ref (drop 1 (take (unat (count ctx)) q) @ [Ref (replicate (unat (width ctx)) 0)]
                                       @ drop (unat (count ctx)) q),
                       tags := drop 1 (take (unat (count ctx)) (tags ctx)) @ [0] @ drop (unat (count ctx)) (tags ctx),
                       count := count ctx - 1, position := position ctx - 1\<rparr>,
                   take (unat outlen) first @ drop (unat outlen) output)"
proof -
  let ?c = "unat (count ctx)" and ?w = "unat (width ctx)" and ?ts = "tags ctx"
  let ?z = "Ref (replicate ?w 0) :: byte list pointer"
  from queue_invD [OF inv] q have len: "length q = unat (depth ctx)"
    and ok: "list_all (slot_ok ?w) q" and pos: "position ctx = count ctx"
    and cd: "?c \<le> length q" and ct: "?c \<le> length ?ts"
    by auto
  from ne have c0: "count ctx \<noteq> 0" by (simp add: qsc_queue_isempty_def)
  then have c1: "1 \<le> ?c" by (simp add: unat_gt_0 Suc_leI)
  have pm: "unat (position ctx - 1) = ?c - 1" using c0 pos by (simp add: unat_minus_one)
  have r0: "0 < length q" using c1 cd by arith
  obtain first where first: "q ! 0 = Ref first" "length first = ?w" "slot q 0 = Some first"
    using slot_of_ok [OF ok r0] by blast
  let ?q0 = "q[0 := ?z]"
  have zok: "slot_ok ?w ?z" by (simp add: slot_ok_def)
  have ok0: "list_all (slot_ok ?w) ?q0"
    using ok zok by (rule list_all_update)
  have copy: "qsc_memutils_copy output first (unat outlen) = Some (take (unat outlen) first @ drop (unat outlen) output)"
    using le out first(2) by (simp add: qsc_memutils_copy_def word_le_nat_alt)
  have tag: "nth_opt ?ts (unat (position ctx - 1)) = Some (?ts ! (?c - 1))"
    using pm c1 ct by (simp add: nth_opt_def)
  let ?q1 = "drop 1 (take ?c ?q0) @ drop (?c - 1) ?q0"
  let ?ts1 = "drop 1 (take ?c ?ts) @ drop (?c - 1) ?ts"
  have loop: "(if count ctx > 1 then pop_loop ?w ?c 1 (?q0, ?ts) else Some (?q0, ?ts)) = Some (?q1, ?ts1)"
  proof (cases "count ctx > 1")
    case True
    then show ?thesis
      using pop_loop_shift [OF ok0, of 1 ?c ?ts] c1 cd ct by simp
  next
    case False
    then have "?c = 1" using c1 by (simp add: word_less_nat_alt)
    then show ?thesis using False by simp
  qed
  have l1: "length ?q1 = length q" using c1 cd by simp
  have n1: "?q1 ! (?c - 1) = ?q0 ! (?c - 1)"
    using c1 cd by (simp add: nth_append)
  have ok1: "list_all (slot_ok ?w) ?q1"
    using ok0 c1 cd by (auto simp: list_all_iff dest: in_set_dropD in_set_takeD)
  have r1: "?c - 1 < length ?q1" using l1 c1 cd by arith
  obtain lst where lst: "length lst = ?w" "slot ?q1 (?c - 1) = Some lst"
    using slot_of_ok [OF ok1 r1] by blast
  have upd: "upd_opt ?ts1 (?c - 1) 0 = Some (?ts1[?c - 1 := 0])"
    using c1 ct by (simp add: upd_opt_def)
  have fq: "?q1[?c - 1 := ?z] = drop 1 (take ?c q) @ [?z] @ drop ?c q"
    using c1 cd by (simp add: list_update_append drop_update_swap take_update_swap upd_conv_take_nth_drop drop_Suc Cons_nth_drop_Suc tl_drop)
  have ft: "?ts1[?c - 1 := 0] = drop 1 (take ?c ?ts) @ [0] @ drop ?c ?ts"
    using c1 ct by (simp add: list_update_append upd_conv_take_nth_drop)
  show ?thesis
    using first(3) copy tag loop lst upd fq ft ne le q pm
    by (simp add: qsc_queue_pop_def clear_whole first(2) lst(1))
qed

section \<open>Push and initialisation on well-formed queues\<close>

lemma unat_succ_below:
  fixes a b :: size_t
  assumes "a \<le> b" "a \<noteq> b"
  shows "unat (a + 1) = unat a + 1"
proof -
  from assms have "unat a < unat b" by (simp add: word_le_nat_alt word_unat_eq_iff)
  moreover have "unat b < 2 ^ LENGTH(64)" by (rule unsigned_less)
  ultimately have "unat a + 1 < 2 ^ 64" by simp
  then show ?thesis by (simp add: unat_word_ariths)
qed

lemma push_rejected:
  "qsc_queue_isfull ctx \<or> width ctx < inlen \<Longrightarrow> qsc_queue_push ctx input inlen tag = Some ctx"
  by (auto simp: qsc_queue_push_def)

lemma push_effect:
  assumes "\<not> qsc_queue_isfull ctx" "inlen \<le> width ctx"
    and "qsc_queue_push ctx input inlen tag = Some ctx'"
  shows "\<exists>q s. queue ctx = Ref q \<and> slot q (unat (position ctx)) = Some s \<and>
      ctx' = ctx\<lparr>queue := Ref (q[unat (position ctx) := Ref (take (unat inlen) input @ drop (unat inlen) s)]),
                tags := (tags ctx)[unat (position ctx) := tag],
                position := position ctx + 1, count := count ctx + 1\<rparr>"
  using assms
  by (cases "queue ctx")
     (auto simp: qsc_queue_push_def qsc_memutils_copy_def upd_opt_def bind_eq_Some_conv
           split: if_splits)

lemma push_defined:
  assumes inv: "queue_inv ctx" and nf: "\<not> qsc_queue_isfull ctx"
    and le: "inlen \<le> width ctx" and inp: "unat inlen \<le> length input"
  shows "\<exists>ctx'. qsc_queue_push ctx input inlen tag = Some ctx' \<and> queue_inv ctx' \<and>
           unat (count ctx') = unat (count ctx) + 1 \<and>
           unat (position ctx') = unat (position ctx) + 1"
proof -
  let ?c = "unat (count ctx)" and ?w = "unat (width ctx)"
  from queue_invD [OF inv] obtain q where q: "queue ctx = Ref q"
    and len: "length q = unat (depth ctx)" and ok: "list_all (slot_ok ?w) q"
    and pos: "position ctx = count ctx" and cd: "?c \<le> unat (depth ctx)"
    and dt: "unat (depth ctx) \<le> length (tags ctx)"
    by auto
  from inv have cle: "count ctx \<le> depth ctx" unfolding queue_inv_def by blast
  from nf have cne: "count ctx \<noteq> depth ctx" by (simp add: qsc_queue_isfull_def)
  have suc: "unat (count ctx + 1) = ?c + 1" using cle cne by (rule unat_succ_below)
  from cle cne have lt: "?c < unat (depth ctx)" by (simp add: word_le_nat_alt word_unat_eq_iff)
  then have r: "?c < length q" using len by simp
  obtain s where s: "length s = ?w" "slot q ?c = Some s"
    using slot_of_ok [OF ok r] by blast
  let ?s = "take (unat inlen) input @ drop (unat inlen) s"
  have copy: "qsc_memutils_copy s input (unat inlen) = Some ?s"
    using le inp s(1) by (simp add: qsc_memutils_copy_def word_le_nat_alt)
  have "length ?s = ?w" using le inp s(1) by (simp add: word_le_nat_alt)
  then have "slot_ok ?w (Ref ?s)" by (simp add: slot_ok_def)
  with ok have ok': "list_all (slot_ok ?w) (q[?c := Ref ?s])" by (rule list_all_update)
  have upd: "upd_opt (tags ctx) ?c tag = Some ((tags ctx)[?c := tag])"
    using lt dt by (simp add: upd_opt_def)
  let ?ctx = "ctx\<lparr>queue := Ref (q[?c := Ref ?s]), tags := (tags ctx)[?c := tag],
                   position := position ctx + 1, count := count ctx + 1\<rparr>"
  have run: "qsc_queue_push ctx input inlen tag = Some ?ctx"
    using nf le q pos s(2) copy upd by (simp add: qsc_queue_push_def)
  have "count ctx + 1 \<le> depth ctx" using suc lt by (simp add: word_le_nat_alt)
  then have "queue_inv ?ctx"
    using ok' len dt pos by (simp add: queue_inv_def)
  then show ?thesis using run suc pos by simp
qed

lemma initialize_inv:
  assumes "unat d \<le> length (tags ctx)" "unat d < 2 ^ 61" "\<forall>i < unat d. i \<notin> failed"
  shows "\<exists>ctx'. qsc_queue_initialize ctx d w True failed = Some ctx' \<and> queue_inv ctx' \<and>
           count ctx' = 0 \<and> depth ctx' = d \<and> width ctx' = w"
proof -
  from assms(2) have "unat d * unat (8 :: size_t) < 2 ^ LENGTH(64)" by simp
  then have "unat (d * 8) = unat d * unat (8 :: size_t)" by (simp only: unat_mult_lem)
  then have fits: "unat d \<le> unat (d * 8) div 8" by simp
  let ?q = "map (\<lambda>i. if i \<in> failed then Null else Ref (replicate (unat w) 0)) [0..<unat d]"
  have "list_all (slot_ok (unat w)) ?q"
    using assms(3) by (simp add: list_all_iff slot_ok_def)
  moreover have "length (clear_tag_bytes (tags ctx) (QSC_QUEUE_MAX_DEPTH ctx)) = length (tags ctx)"
    by (simp add: clear_tag_bytes_def)
  ultimately show ?thesis
    using fits assms(1) by (simp add: qsc_queue_initialize_def queue_inv_def)
qed

section \<open>The counters across the operations\<close>

lemma initialize_counters:
  "qsc_queue_initialize ctx d w alloc_q failed = Some ctx' \<Longrightarrow>
   (alloc_q \<and> count ctx' = 0 \<and> position ctx' = 0) \<or>
   (\<not> alloc_q \<and> count ctx' = count ctx \<and> position ctx' = position ctx)"
  by (auto simp: qsc_queue_initialize_def split: if_splits)

lemma push_counters:
  "qsc_queue_push ctx input inlen tag = Some ctx' \<Longrightarrow>
   ctx' = ctx \<or> (count ctx' = count ctx + 1 \<and> position ctx' = position ctx + 1)"
  by (auto simp: qsc_queue_push_def bind_eq_Some_conv split: if_splits)

lemma pop_counters:
  "qsc_queue_pop ctx output outlen = Some (t, ctx', out') \<Longrightarrow>
   ctx' = ctx \<or> (count ctx' = count ctx - 1 \<and> position ctx' = position ctx - 1)"
  unfolding qsc_queue_pop_def
  by (cases "\<not> qsc_queue_isempty ctx \<and> outlen \<le> width ctx")
     (auto simp: bind_eq_Some_conv)

lemma flush_counters:
  "qsc_queue_flush ctx output = Some (ctx', out') \<Longrightarrow>
   ctx' = ctx \<or> (count ctx' = 0 \<and> position ctx' = 0)"
  by (auto simp: qsc_queue_flush_def bind_eq_Some_conv split: if_splits)

lemma destroy_counters:
  "qsc_queue_destroy ctx = Some ctx' \<Longrightarrow> count ctx' = 0 \<and> position ctx' = 0"
  by (auto simp: qsc_queue_destroy_def bind_eq_Some_conv)

lemma apply_op_counters:
  assumes "count ctx = position ctx" and "apply_op ctx x = Some ctx'"
  shows "count ctx' = position ctx'"
proof (cases x)
  case (Initialize d w alloc_q failed)
  with assms initialize_counters [of ctx d w alloc_q failed ctx'] show ?thesis by auto
next
  case (Push inp inlen tag)
  with assms push_counters [of ctx inp inlen tag ctx'] show ?thesis by auto
next
  case (Pop outp outlen)
  with assms obtain t out' where "qsc_queue_pop ctx outp outlen = Some (t, ctx', out')"
    by auto
  with assms pop_counters [of ctx outp outlen t ctx' out'] show ?thesis by auto
next
  case (Flush outp)
  with assms obtain out' where "qsc_queue_flush ctx outp = Some (ctx', out')"
    by auto
  with assms flush_counters [of ctx outp ctx' out'] show ?thesis by auto
next
  case Destroy
  with assms destroy_counters [of ctx ctx'] show ?thesis by auto
qed

lemma run_counters:
  "count ctx = position ctx \<Longrightarrow> run ctx xs = Some ctx' \<Longrightarrow> count ctx' = position ctx'"
proof (induction xs arbitrary: ctx)
  case Nil
  then show ?case by simp
next
  case (Cons x xs)
  then show ?case by (auto simp: bind_eq_Some_conv dest: apply_op_counters)
qed

section \<open>The concrete states are reached by the operations\<close>

lemma empty_2x2_reached: "run zero_ctx [Initialize 2 2 True {}] = Some empty_2x2"
  by code_simp

lemma two_items_reached:
  "run zero_ctx [Initialize 2 2 True {}, Push [1, 2] 2 10, Push [3, 4] 2 20] = Some two_items"
  by code_simp

lemma concrete_states_inv: "queue_inv empty_2x2 \<and> queue_inv two_items"
  by code_simp

section \<open>The queue as a list of items\<close>

lemma unat_of_nat_size_t: "n < 2 ^ 64 \<Longrightarrow> unat (word_of_nat n :: size_t) = n"
  by (simp add: unat_of_nat)

lemma mk_queue_fields:
  assumes "mk_queue_ok d w xs rest"
  shows "unat (count (mk_queue d w xs rest)) = length xs"
    and "unat (depth (mk_queue d w xs rest)) = d"
    and "unat (width (mk_queue d w xs rest)) = w"
    and "position (mk_queue d w xs rest) = count (mk_queue d w xs rest)"
  using assms by (simp_all add: mk_queue_def mk_queue_ok_def unat_of_nat_size_t)

lemma mk_queue_inv:
  assumes "mk_queue_ok d w xs rest"
  shows "queue_inv (mk_queue d w xs rest)"
proof -
  from assms have b: "length xs \<le> d" "d < 2 ^ 64" "w < 2 ^ 64" "d \<le> length xs + length rest"
    and it: "list_all (\<lambda>x. length (fst x) = w) xs"
    by (simp_all add: mk_queue_ok_def)
  have "list_all (slot_ok w) (map (\<lambda>x. Ref (fst x)) xs @ replicate (d - length xs) (zero_slot w))"
    using it by (auto simp: list_all_iff slot_ok_def zero_slot_def)
  moreover have "(word_of_nat (length xs) :: size_t) \<le> word_of_nat d"
    using b by (simp add: word_le_nat_alt unat_of_nat_size_t)
  ultimately show ?thesis
    using b by (simp add: queue_inv_def mk_queue_def unat_of_nat_size_t)
qed

lemma mk_queue_pop:
  assumes ok: "mk_queue_ok d w (x # xs) rest"
    and le: "unat outlen \<le> w" and out: "unat outlen \<le> length output"
  shows "qsc_queue_pop (mk_queue d w (x # xs) rest) output outlen =
           Some (snd (last (x # xs)), mk_queue d w xs (0 # rest),
                 take (unat outlen) (fst x) @ drop (unat outlen) output)"
proof -
  let ?ctx = "mk_queue d w (x # xs) rest"
  let ?q = "map (\<lambda>x. Ref (fst x)) (x # xs) @ replicate (d - length (x # xs)) (zero_slot w)"
  note f = mk_queue_fields [OF ok]
  from ok have b: "Suc (length xs) \<le> d" "d < 2 ^ 64" "w < 2 ^ 64"
    by (simp_all add: mk_queue_ok_def)
  have inv: "queue_inv ?ctx" using ok by (rule mk_queue_inv)
  have ne: "\<not> qsc_queue_isempty ?ctx"
    using f(1) by (auto simp: qsc_queue_isempty_def)
  have le': "outlen \<le> width ?ctx" using le f(3) by (simp add: word_le_nat_alt)
  have q: "queue ?ctx = Ref ?q" by (simp add: mk_queue_def)
  from pop_nonempty [OF inv ne le' out q]
  obtain first where s: "slot ?q 0 = Some first"
    and p: "qsc_queue_pop ?ctx output outlen =
      Some (tags ?ctx ! (unat (count ?ctx) - 1),
            ?ctx\<lparr>queue := Ref (drop 1 (take (unat (count ?ctx)) ?q)
                               @ [Ref (replicate (unat (width ?ctx)) 0)]
                               @ drop (unat (count ?ctx)) ?q),
                  tags := drop 1 (take (unat (count ?ctx)) (tags ?ctx)) @ [0]
                          @ drop (unat (count ?ctx)) (tags ?ctx),
                  count := count ?ctx - 1, position := position ?ctx - 1\<rparr>,
            take (unat outlen) first @ drop (unat outlen) output)"
    by blast
  have first: "first = fst x" using s by (simp add: slot_def nth_opt_def)
  have tag: "tags ?ctx ! (unat (count ?ctx) - 1) = snd (last (x # xs))"
    unfolding f(1) by (simp add: mk_queue_def nth_append last_conv_nth nth_Cons split: nat.splits)
  have "d - length xs = Suc (d - Suc (length xs))" using b(1) by arith
  then have rep: "replicate (d - length xs) z = z # replicate (d - Suc (length xs)) z" for z :: "byte list pointer"
    by simp
  have st: "?ctx\<lparr>queue := Ref (drop 1 (take (unat (count ?ctx)) ?q)
                               @ [Ref (replicate (unat (width ?ctx)) 0)]
                               @ drop (unat (count ?ctx)) ?q),
                  tags := drop 1 (take (unat (count ?ctx)) (tags ?ctx)) @ [0]
                          @ drop (unat (count ?ctx)) (tags ?ctx),
                  count := count ?ctx - 1, position := position ?ctx - 1\<rparr>
           = mk_queue d w xs (0 # rest)"
    unfolding f(1) f(3) by (simp add: mk_queue_def rep zero_slot_def)
  show ?thesis using p unfolding first tag st .
qed

lemma mk_queue_push:
  assumes ok: "mk_queue_ok d w xs rest" and lt: "length xs < d"
    and le: "unat inlen \<le> w" and inp: "unat inlen \<le> length input"
  shows "qsc_queue_push (mk_queue d w xs rest) input inlen tag =
           Some (mk_queue d w (xs @ [(take (unat inlen) input @ replicate (w - unat inlen) 0, tag)])
                   (tl rest))"
proof -
  let ?ctx = "mk_queue d w xs rest" and ?n = "length xs"
  let ?q = "map (\<lambda>x. Ref (fst x)) xs @ replicate (d - length xs) (zero_slot w)"
  let ?item = "take (unat inlen) input @ replicate (w - unat inlen) 0"
  note f = mk_queue_fields [OF ok]
  from ok have b: "d < 2 ^ 64" "w < 2 ^ 64" "d \<le> ?n + length rest"
    by (simp_all add: mk_queue_ok_def)
  from lt b(3) obtain t rest' where rest: "rest = t # rest'" by (cases rest) auto
  have nf: "\<not> qsc_queue_isfull ?ctx"
    using f(1) f(2) lt by (auto simp: qsc_queue_isfull_def)
  have le': "inlen \<le> width ?ctx" using le f(3) by (simp add: word_le_nat_alt)
  have q: "queue ?ctx = Ref ?q" by (simp add: mk_queue_def)
  have pos: "unat (position ?ctx) = ?n" using f(1) f(4) by simp
  have "d - ?n = Suc (d - Suc ?n)" using lt by arith
  then have rep: "replicate (d - ?n) z = z # replicate (d - Suc ?n) z" for z :: "byte list pointer"
    by simp
  have s: "slot ?q ?n = Some (replicate w 0)"
    using lt by (simp add: slot_def nth_opt_def nth_append zero_slot_def)
  have copy: "qsc_memutils_copy (replicate w 0) input (unat inlen) = Some ?item"
    using le inp by (simp add: qsc_memutils_copy_def)
  have upd: "upd_opt (tags ?ctx) ?n tag = Some (map snd xs @ tag # rest')"
    by (simp add: upd_opt_def mk_queue_def rest list_update_append)
  have qu: "?q[?n := Ref ?item] = map (\<lambda>x. Ref (fst x)) (xs @ [(?item, tag)])
              @ replicate (d - length (xs @ [(?item, tag)])) (zero_slot w)"
    by (simp add: list_update_append rep)
  have st: "?ctx\<lparr>queue := Ref (?q[?n := Ref ?item]), tags := map snd xs @ tag # rest',
                  position := position ?ctx + 1, count := count ?ctx + 1\<rparr>
            = mk_queue d w (xs @ [(?item, tag)]) (tl rest)"
    unfolding qu by (simp add: mk_queue_def rest)
  have "qsc_queue_push ?ctx input inlen tag =
          Some (?ctx\<lparr>queue := Ref (?q[?n := Ref ?item]), tags := map snd xs @ tag # rest',
                  position := position ?ctx + 1, count := count ?ctx + 1\<rparr>)"
    using nf le' q s copy upd unfolding qsc_queue_push_def pos by simp
  then show ?thesis unfolding st .
qed

lemma mk_queue_ok_push:
  assumes "mk_queue_ok d w xs rest" "length xs < d" "length item = w"
  shows "mk_queue_ok d w (xs @ [(item, tag)]) (tl rest)"
  using assms by (cases rest) (auto simp: mk_queue_ok_def)

lemma mk_queue_ok_pop:
  assumes "mk_queue_ok d w (x # xs) rest"
  shows "mk_queue_ok d w xs (0 # rest)"
  using assms by (auto simp: mk_queue_ok_def)

lemma mk_queue_initialize:
  assumes "d < 2 ^ 61" "w < 2 ^ 64" "\<forall>i<d. i \<notin> failed"
  shows "qsc_queue_initialize ctx (word_of_nat d) (word_of_nat w) True failed =
           Some (mk_queue d w [] (clear_tag_bytes (tags ctx) (QSC_QUEUE_MAX_DEPTH ctx)))"
proof -
  from assms(1) have d: "unat (word_of_nat d :: size_t) = d" by (simp add: unat_of_nat_size_t)
  from assms(2) have w: "unat (word_of_nat w :: size_t) = w" by (simp add: unat_of_nat_size_t)
  from assms(1) d have "unat (word_of_nat d :: size_t) * unat (8 :: size_t) < 2 ^ LENGTH(64)" by simp
  then have "unat (word_of_nat d * 8 :: size_t) = unat (word_of_nat d :: size_t) * unat (8 :: size_t)"
    by (simp only: unat_mult_lem)
  then have fits: "unat (word_of_nat d :: size_t) \<le> unat (word_of_nat d * 8 :: size_t) div 8"
    by simp
  have "map (\<lambda>i. if i \<in> failed then Null else Ref (replicate w 0)) [0..<d] = replicate d (zero_slot w)"
    using assms(3) by (simp add: list_eq_iff_nth_eq zero_slot_def)
  then show ?thesis
    using fits unfolding qsc_queue_initialize_def d w
    by (simp add: mk_queue_def)
qed

lemma push_items_mk_queue:
  assumes "mk_queue_ok d w xs rest" "length xs + length ys \<le> d"
    and "list_all (\<lambda>y. length (fst y) = w) ys"
  shows "push_items (mk_queue d w xs rest) (word_of_nat w) ys =
           Some (mk_queue d w (xs @ ys) (drop (length ys) rest))"
  using assms
proof (induction ys arbitrary: xs rest)
  case Nil
  then show ?case by simp
next
  case (Cons y ys)
  from Cons.prems have w: "w < 2 ^ 64" by (simp add: mk_queue_ok_def)
  then have uw: "unat (word_of_nat w :: size_t) = w" by (rule unat_of_nat_size_t)
  from Cons.prems have lt: "length xs < d" and ly: "length (fst y) = w" by simp_all
  have push: "qsc_queue_push (mk_queue d w xs rest) (fst y) (word_of_nat w) (snd y) =
                Some (mk_queue d w (xs @ [y]) (tl rest))"
    using mk_queue_push [OF Cons.prems(1) lt, of "word_of_nat w" "fst y" "snd y"] ly uw by simp
  have ok': "mk_queue_ok d w (xs @ [y]) (tl rest)"
    using mk_queue_ok_push [OF Cons.prems(1) lt ly, of "snd y"] by simp
  have "push_items (mk_queue d w (xs @ [y]) (tl rest)) (word_of_nat w) ys =
          Some (mk_queue d w ((xs @ [y]) @ ys) (drop (length ys) (tl rest)))"
    using Cons.prems by (intro Cons.IH [OF ok']) simp_all
  then show ?case using push by (simp add: drop_Suc)
qed

lemma pop_items_mk_queue:
  assumes "mk_queue_ok d w xs rest" "k \<le> length xs"
  shows "pop_items (mk_queue d w xs rest) k (word_of_nat w) =
           Some (map (\<lambda>x. (snd (last xs), fst x)) (take k xs),
                 mk_queue d w (drop k xs) (replicate k 0 @ rest))"
  using assms
proof (induction k arbitrary: xs rest)
  case 0
  then show ?case by simp
next
  case (Suc k)
  then obtain x xs' where xs: "xs = x # xs'" by (cases xs) auto
  from Suc.prems have w: "w < 2 ^ 64" by (simp add: mk_queue_ok_def)
  then have uw: "unat (word_of_nat w :: size_t) = w" by (rule unat_of_nat_size_t)
  from Suc.prems xs have lx: "length (fst x) = w" by (simp add: mk_queue_ok_def)
  have pop: "qsc_queue_pop (mk_queue d w (x # xs') rest) (replicate w 0) (word_of_nat w) =
               Some (snd (last (x # xs')), mk_queue d w xs' (0 # rest), fst x)"
    using mk_queue_pop [of d w x xs' rest "word_of_nat w" "replicate w 0"] Suc.prems(1) lx
    unfolding xs uw by simp
  have ok': "mk_queue_ok d w xs' (0 # rest)"
    using Suc.prems(1) unfolding xs by (rule mk_queue_ok_pop)
  from Suc.prems xs have k: "k \<le> length xs'" by simp
  note ih = Suc.IH [OF ok' k]
  have tags: "map (\<lambda>y. (snd (last xs'), fst y)) (take k xs') = map (\<lambda>y. (snd (last (x # xs')), fst y)) (take k xs')"
    by (cases xs') simp_all
  show ?case
    unfolding xs using pop ih tags uw by (simp add: replicate_app_Cons_same)
qed

lemma test_items_facts:
  "length test_items = 64" "list_all (\<lambda>y. length (fst y) = 16) test_items"
  "snd (last test_items) = 63" "map fst test_items = map test_item [0..<64]"
  "map snd test_items = map word_of_nat [0..<64]"
proof -
  show "length test_items = 64" by (simp add: test_items_def)
  show "list_all (\<lambda>y. length (fst y) = 16) test_items"
    by (simp add: test_items_def list_all_iff test_item_def)
  have "[0..<64] \<noteq> []" by simp
  then have "last test_items = (test_item 63, 63)"
    unfolding test_items_def by (simp add: last_map)
  then show "snd (last test_items) = 63" by simp
  show "map fst test_items = map test_item [0..<64]" by (simp add: test_items_def comp_def)
  show "map snd test_items = map word_of_nat [0..<64]" by (simp add: test_items_def comp_def)
qed

text \<open>
  The scenario of the self test, with the tags collected: 64 items of 16 bytes are
  pushed with the tags 0 to 63 and popped again. The items come back in the order of
  the pushes, every pop returns the tag 63, and the queue ends empty, with zeroed
  slots and 64 zeroed tags.
\<close>

lemma self_test_tags:
  assumes "64 \<le> length (tags ctx)"
  shows "do { c \<leftarrow> qsc_queue_initialize ctx 64 16 True {};
              c \<leftarrow> push_items c 16 test_items;
              pop_items c 64 16 }
         = Some (map (\<lambda>x. (63, fst x)) test_items,
                 mk_queue 64 16 [] (replicate 64 0 @ drop 64 (clear_tag_bytes (tags ctx) (QSC_QUEUE_MAX_DEPTH ctx))))"
proof -
  let ?T = "clear_tag_bytes (tags ctx) (QSC_QUEUE_MAX_DEPTH ctx)"
  have lenT: "length ?T = length (tags ctx)" by (simp add: clear_tag_bytes_def)
  have init: "qsc_queue_initialize ctx 64 16 True {} = Some (mk_queue 64 16 [] ?T)"
    using mk_queue_initialize [of 64 16 "{}" ctx] by simp
  have ok0: "mk_queue_ok 64 16 [] ?T"
    using assms lenT by (simp add: mk_queue_ok_def)
  have push: "push_items (mk_queue 64 16 [] ?T) 16 test_items =
                Some (mk_queue 64 16 test_items (drop 64 ?T))"
    using push_items_mk_queue [OF ok0, of test_items] test_items_facts(1,2) by simp
  have ok1: "mk_queue_ok 64 16 test_items (drop 64 ?T)"
    using assms lenT test_items_facts(1,2) by (simp add: mk_queue_ok_def)
  have pop: "pop_items (mk_queue 64 16 test_items (drop 64 ?T)) 64 16 =
               Some (map (\<lambda>x. (63, fst x)) test_items,
                     mk_queue 64 16 [] (replicate 64 0 @ drop 64 ?T))"
    using pop_items_mk_queue [OF ok1, of 64] test_items_facts(1,3) by simp
  show ?thesis using init push pop by simp
qed

section \<open>The thread pool below and above its capacity\<close>

lemma add_task_below_capacity:
  assumes "unat (tcount ctx) < QSC_THREADPOOL_THREADS_MAX"
    and "length (tpool ctx) = QSC_THREADPOOL_THREADS_MAX"
  shows "qsc_threadpool_add_task ctx handle =
           Inr (ctx\<lparr>tpool := (tpool ctx)[unat (tcount ctx) := handle], tcount := tcount ctx + 1\<rparr>, True)"
  using assms by (simp add: qsc_threadpool_add_task_def)

lemma add_task_above_capacity:
  assumes "QSC_THREADPOOL_THREADS_MAX < unat (tcount ctx)"
  shows "qsc_threadpool_add_task ctx handle = Inr (ctx, False)"
  using assms by (simp add: qsc_threadpool_add_task_def)

section \<open>Every call of a well-formed sequence is defined\<close>

lemma push_total:
  assumes inv: "queue_inv ctx" and inp: "unat inlen \<le> length input"
  shows "\<exists>ctx'. qsc_queue_push ctx input inlen tag = Some ctx' \<and> queue_inv ctx' \<and>
           depth ctx' = depth ctx \<and> width ctx' = width ctx \<and>
           length (tags ctx') = length (tags ctx)"
proof (cases "\<not> qsc_queue_isfull ctx \<and> inlen \<le> width ctx")
  case True
  then obtain ctx' where p: "qsc_queue_push ctx input inlen tag = Some ctx'" and i: "queue_inv ctx'"
    using push_defined [OF inv _ _ inp, of tag] by blast
  from push_effect [OF _ _ p] True obtain q s where
    "ctx' = ctx\<lparr>queue := Ref (q[unat (position ctx) := Ref (take (unat inlen) input @ drop (unat inlen) s)]),
                tags := (tags ctx)[unat (position ctx) := tag],
                position := position ctx + 1, count := count ctx + 1\<rparr>"
    by blast
  then have "depth ctx' = depth ctx \<and> width ctx' = width ctx \<and> length (tags ctx') = length (tags ctx)"
    by simp
  with p i show ?thesis by blast
next
  case False
  then have "qsc_queue_push ctx input inlen tag = Some ctx"
    by (auto simp: qsc_queue_push_def)
  with inv show ?thesis by blast
qed

lemma pop_total:
  assumes inv: "queue_inv ctx" and out: "unat outlen \<le> length output"
  shows "\<exists>t ctx' out'. qsc_queue_pop ctx output outlen = Some (t, ctx', out') \<and> queue_inv ctx' \<and>
           depth ctx' = depth ctx \<and> width ctx' = width ctx \<and>
           length (tags ctx') = length (tags ctx)"
proof (cases "\<not> qsc_queue_isempty ctx \<and> outlen \<le> width ctx")
  case True
  let ?c = "unat (count ctx)" and ?w = "unat (width ctx)"
  from queue_invD [OF inv] obtain q where q: "queue ctx = Ref q"
    and len: "length q = unat (depth ctx)" and ok: "list_all (slot_ok ?w) q"
    and pos: "position ctx = count ctx" and cd: "?c \<le> unat (depth ctx)"
    and dt: "unat (depth ctx) \<le> length (tags ctx)"
    by auto
  from True have c0: "count ctx \<noteq> 0" by (simp add: qsc_queue_isempty_def)
  then have c1: "1 \<le> ?c" by (simp add: unat_gt_0 Suc_leI)
  have cm: "unat (count ctx - 1) = ?c - 1" using c0 by (simp add: unat_minus_one)
  let ?q' = "drop 1 (take ?c q) @ [Ref (replicate ?w 0)] @ drop ?c q"
  let ?ts' = "drop 1 (take ?c (tags ctx)) @ [0] @ drop ?c (tags ctx)"
  let ?ctx' = "ctx\<lparr>queue := Ref ?q', tags := ?ts', count := count ctx - 1, position := position ctx - 1\<rparr>"
  from pop_nonempty [OF inv _ _ out q] True obtain first where
    p: "qsc_queue_pop ctx output outlen =
          Some (tags ctx ! (?c - 1), ?ctx', take (unat outlen) first @ drop (unat outlen) output)"
    by blast
  have lq: "length ?q' = unat (depth ctx)" using c1 cd len by simp
  have lt: "length ?ts' = length (tags ctx)" using c1 cd dt by simp
  have "slot_ok ?w (Ref (replicate ?w 0))" by (simp add: slot_ok_def)
  then have okq: "list_all (slot_ok ?w) ?q'"
    using ok by (auto simp: list_all_iff dest: in_set_dropD in_set_takeD)
  have "count ctx - 1 \<le> depth ctx" using cm cd by (simp add: word_le_nat_alt)
  then have "queue_inv ?ctx'"
    using lq okq lt dt pos by (simp add: queue_inv_def)
  then show ?thesis using p lt by simp
next
  case False
  then have "qsc_queue_pop ctx output outlen = Some (0, ctx, output)"
    by (auto simp: qsc_queue_pop_def)
  with inv show ?thesis by blast
qed

lemma unat_index_offset: "unat (word_of_nat i * (w :: size_t)) \<le> i * unat w"
proof -
  have "unat (word_of_nat i * w) \<le> unat (word_of_nat i :: size_t) * unat w"
    by (simp add: unat_word_ariths)
  also have "\<dots> \<le> i * unat w"
    by (simp add: unat_of_nat mult_le_mono1)
  finally show ?thesis .
qed

lemma flush_loop_defined:
  assumes "list_all (slot_ok (unat w)) q" "i \<le> n" "n \<le> length q" "n * unat w \<le> length out"
  shows "\<exists>q' out'. flush_loop w n i (Ref q, out) = Some (Ref q', out') \<and>
           length q' = length q \<and> list_all (slot_ok (unat w)) q' \<and> length out' = length out"
  using assms
proof (induction "n - i" arbitrary: i q out)
  case 0
  then have "i = n" by simp
  then show ?case using 0 by (simp add: flush_loop.simps)
next
  case (Suc k)
  then have lt: "i < n" by simp
  with Suc.prems have ir: "i < length q" by simp
  obtain buf where buf: "q ! i = Ref buf" "length buf = unat w"
    using slot_of_ok [OF Suc.prems(1) ir] by blast
  have "Suc i * unat w \<le> n * unat w" using lt by (simp add: mult_le_mono1 Suc_leI del: mult_Suc)
  then have "i * unat w + unat w \<le> length out" using Suc.prems(4) by simp
  then have off: "unat (word_of_nat i * w) + unat w \<le> length out"
    using unat_index_offset [of i w] by arith
  let ?out = "take (unat (word_of_nat i * w)) out @ take (unat w) buf
              @ drop (unat (word_of_nat i * w) + unat w) out"
  let ?q = "q[i := Ref (replicate (unat w) 0)]"
  have copy: "copy_at out (unat (word_of_nat i * w)) buf (unat w) = Some ?out"
    using off buf(2) by (simp add: copy_at_def)
  have lo: "length ?out = length out" using off buf(2) by simp
  have "slot_ok (unat w) (Ref (replicate (unat w) 0))" by (simp add: slot_ok_def)
  with Suc.prems(1) have ok: "list_all (slot_ok (unat w)) ?q" by (rule list_all_update)
  have unfold: "flush_loop w n i (Ref q, out) = flush_loop w n (i + 1) (Ref ?q, ?out)"
    using lt ir buf copy
    by (subst flush_loop.simps) (simp add: nth_opt_def clear_whole)
  have "\<exists>q' out'. flush_loop w n (i + 1) (Ref ?q, ?out) = Some (Ref q', out') \<and>
           length q' = length ?q \<and> list_all (slot_ok (unat w)) q' \<and> length out' = length ?out"
    using Suc.hyps(2) Suc.prems lt ok lo by (intro Suc.hyps(1)) auto
  then show ?case using unfold lo by auto
qed

lemma flush_total:
  assumes inv: "queue_inv ctx" and out: "unat (depth ctx) * unat (width ctx) \<le> length output"
  shows "\<exists>ctx' out'. qsc_queue_flush ctx output = Some (ctx', out') \<and> queue_inv ctx' \<and>
           depth ctx' = depth ctx \<and> width ctx' = width ctx \<and>
           length (tags ctx') = length (tags ctx)"
proof -
  let ?w = "unat (width ctx)"
  from queue_invD [OF inv] obtain q where q: "queue ctx = Ref q"
    and len: "length q = unat (depth ctx)" and ok: "list_all (slot_ok ?w) q"
    and pos: "position ctx = count ctx" and cd: "unat (count ctx) \<le> unat (depth ctx)"
    and dt: "unat (depth ctx) \<le> length (tags ctx)"
    by auto
  have "unat (position ctx) \<le> unat (depth ctx)" using pos cd by simp
  then have "unat (position ctx) * ?w \<le> unat (depth ctx) * ?w" by (rule mult_le_mono1)
  then have fits: "unat (position ctx) * ?w \<le> length output" using out by (rule le_trans)
  have pl: "unat (position ctx) \<le> length q" using pos cd len by simp
  from flush_loop_defined [OF ok _ pl fits, of 0]
  obtain q' out' where l: "flush_loop (width ctx) (unat (position ctx)) 0 (Ref q, output) = Some (Ref q', out')"
    and lq: "length q' = length q" and okq: "list_all (slot_ok ?w) q'"
    by auto
  let ?ctx' = "ctx\<lparr>queue := Ref q', count := 0, position := 0,
                    tags := replicate (length (tags ctx)) 0\<rparr>"
  have run: "qsc_queue_flush ctx output = Some (?ctx', out')"
    using q l by (simp add: qsc_queue_flush_def)
  have "queue_inv ?ctx'"
    using lq len okq dt by (simp add: queue_inv_def)
  then show ?thesis using run by simp
qed

lemma destroy_loop_defined:
  assumes "\<forall>j. i \<le> j \<and> j < n \<longrightarrow> slot_ok w (q ! j)" "i \<le> n" "n \<le> length q"
  shows "\<exists>q'. destroy_loop w n i (Ref q) = Some (Ref q')"
  using assms
proof (induction "n - i" arbitrary: i q)
  case 0
  then have "i = n" by simp
  then show ?case by (simp add: destroy_loop.simps)
next
  case (Suc k)
  then have lt: "i < n" by simp
  with Suc.prems have ir: "i < length q" by simp
  from Suc.prems(1) lt have "slot_ok w (q ! i)" by simp
  then obtain buf where buf: "q ! i = Ref buf" "length buf = w"
    using slot_okD by blast
  let ?q = "q[i := Dangling]"
  have unfold: "destroy_loop w n i (Ref q) = destroy_loop w n (i + 1) (Ref ?q)"
    using lt ir buf
    by (subst destroy_loop.simps)
       (simp add: nth_opt_def clear_whole qsc_memutils_aligned_free_def)
  have "\<forall>j. i + 1 \<le> j \<and> j < n \<longrightarrow> slot_ok w (?q ! j)"
    using Suc.prems(1) by simp
  then have "\<exists>q'. destroy_loop w n (i + 1) (Ref ?q) = Some (Ref q')"
    using Suc.hyps(2) Suc.prems lt by (intro Suc.hyps(1)) auto
  then show ?case using unfold by simp
qed

lemma destroy_total:
  assumes inv: "queue_inv ctx"
  shows "\<exists>ctx'. qsc_queue_destroy ctx = Some ctx' \<and> destroyed ctx' \<and>
           length (tags ctx') = length (tags ctx)"
proof -
  let ?w = "unat (width ctx)"
  from queue_invD [OF inv] obtain q where q: "queue ctx = Ref q"
    and len: "length q = unat (depth ctx)" and ok: "list_all (slot_ok ?w) q"
    by auto
  have "\<forall>j. 0 \<le> j \<and> j < unat (depth ctx) \<longrightarrow> slot_ok ?w (q ! j)"
    using ok len by (simp add: list_all_length)
  from destroy_loop_defined [OF this] len
  obtain q' where "destroy_loop ?w (unat (depth ctx)) 0 (Ref q) = Some (Ref q')"
    by auto
  then show ?thesis
    using q by (simp add: qsc_queue_destroy_def qsc_memutils_aligned_free_def destroyed_def)
qed

lemma destroyed_push: "destroyed ctx \<Longrightarrow> qsc_queue_push ctx input inlen tag = Some ctx"
  by (simp add: destroyed_def qsc_queue_push_def qsc_queue_isfull_def)

lemma destroyed_pop: "destroyed ctx \<Longrightarrow> qsc_queue_pop ctx output outlen = Some (0, ctx, output)"
  by (simp add: destroyed_def qsc_queue_pop_def qsc_queue_isempty_def)

lemma destroyed_flush:
  assumes "destroyed ctx"
  shows "\<exists>ctx' out'. qsc_queue_flush ctx output = Some (ctx', out') \<and> destroyed ctx' \<and>
           length (tags ctx') = length (tags ctx)"
  using assms
  by (simp add: destroyed_def qsc_queue_flush_def flush_loop.simps)

lemma initialize_total:
  assumes "unat d \<le> length (tags ctx)" "unat d < 2 ^ 61" "failed \<inter> {..<unat d} = {}"
  shows "\<exists>ctx'. qsc_queue_initialize ctx d w True failed = Some ctx' \<and> queue_inv ctx' \<and>
           depth ctx' = d \<and> width ctx' = w \<and> length (tags ctx') = length (tags ctx)"
proof -
  from assms(3) have "\<forall>i < unat d. i \<notin> failed" by auto
  from initialize_inv [OF assms(1,2) this, of w]
  obtain ctx' where i: "qsc_queue_initialize ctx d w True failed = Some ctx'"
    and r: "queue_inv ctx'" "depth ctx' = d" "width ctx' = w"
    by blast
  from i have "length (tags ctx') = length (tags ctx)"
    by (auto simp: qsc_queue_initialize_def clear_tag_bytes_def split: if_splits)
  with i r show ?thesis by blast
qed

lemma call_defined:
  assumes "in_lifecycle m s ctx" and "call_ok m s x = Some s'"
  shows "\<exists>ctx'. apply_op ctx x = Some ctx' \<and> in_lifecycle m s' ctx'"
proof (cases x)
  case (Initialize d w alloc_q failed)
  with assms(2) have c: "alloc_q" "failed \<inter> {..<unat d} = {}" "unat d \<le> m" "unat d < 2 ^ 61"
    and s': "s' = Live (unat d) (unat w)"
    by (simp_all split: if_splits)
  from assms(1) have "length (tags ctx) = m" by (cases s) simp_all
  with c initialize_total [of d ctx failed w] s' Initialize show ?thesis by auto
next
  case (Push inp inlen tag)
  show ?thesis
  proof (cases s)
    case Unwritten
    with assms(2) Push show ?thesis by simp
  next
    case (Live d w)
    with assms Push have "unat inlen \<le> length inp" "s' = Live d w" "queue_inv ctx"
      by (simp_all split: if_splits)
    with push_total [of ctx inlen inp tag] assms(1) Live Push show ?thesis by auto
  next
    case Destroyed
    with assms Push destroyed_push [of ctx inp inlen tag] show ?thesis by auto
  qed
next
  case (Pop outp outlen)
  show ?thesis
  proof (cases s)
    case Unwritten
    with assms(2) Pop show ?thesis by simp
  next
    case (Live d w)
    with assms Pop have "unat outlen \<le> length outp" "s' = Live d w" "queue_inv ctx"
      by (simp_all split: if_splits)
    with pop_total [of ctx outlen outp] assms(1) Live Pop show ?thesis by auto
  next
    case Destroyed
    with assms Pop destroyed_pop [of ctx outp outlen] show ?thesis by auto
  qed
next
  case (Flush outp)
  show ?thesis
  proof (cases s)
    case Unwritten
    with assms(2) Flush show ?thesis by simp
  next
    case (Live d w)
    with assms Flush have "unat (depth ctx) * unat (width ctx) \<le> length outp" "s' = Live d w" "queue_inv ctx"
      by (simp_all split: if_splits)
    with flush_total [of ctx outp] assms(1) Live Flush show ?thesis by auto
  next
    case Destroyed
    with assms Flush destroyed_flush [of ctx outp] show ?thesis by auto
  qed
next
  case Destroy
  show ?thesis
  proof (cases s)
    case Unwritten
    with assms(2) Destroy show ?thesis by simp
  next
    case (Live d w)
    with assms Destroy destroy_total [of ctx] show ?thesis by auto
  next
    case Destroyed
    with assms(2) Destroy show ?thesis by simp
  qed
qed

lemma lifecycle_counters:
  assumes "in_lifecycle m s ctx" "s \<noteq> Unwritten"
  shows "count ctx = position ctx"
  using assms by (cases s) (simp_all add: queue_inv_def destroyed_def)

lemma calls_defined:
  assumes "in_lifecycle m s ctx" and "calls_ok m s xs"
  shows "\<exists>s' ctx'. run ctx xs = Some ctx' \<and> in_lifecycle m s' ctx' \<and> (s = Unwritten \<longrightarrow> xs = [] \<or> s' \<noteq> Unwritten) \<and> (s \<noteq> Unwritten \<longrightarrow> s' \<noteq> Unwritten)"
  using assms
proof (induction xs arbitrary: s ctx)
  case Nil
  then show ?case by auto
next
  case (Cons x xs)
  then obtain s1 where s1: "call_ok m s x = Some s1" and rest: "calls_ok m s1 xs"
    by (auto split: option.splits)
  from call_defined [OF Cons.prems(1) s1] obtain ctx1 where
    a: "apply_op ctx x = Some ctx1" and l: "in_lifecycle m s1 ctx1"
    by blast
  have n1: "s1 \<noteq> Unwritten"
    using s1 by (cases x; cases s) (auto split: if_splits)
  from Cons.IH [OF l rest] n1 obtain s' ctx' where
    "run ctx1 xs = Some ctx'" "in_lifecycle m s' ctx'" "s' \<noteq> Unwritten"
    by auto
  with a show ?case by auto
qed

section \<open>Push on well-formed queues\<close>

text \<open>
  A push that is rejected changes nothing. A push that is accepted and defined writes
  the input over the start of slot \<open>position\<close>, stores the tag at index \<open>position\<close>
  and adds one to both counters; on a well-formed queue an accepted push is defined,
  \<open>position\<close> is the first unused slot and no counter wraps.
\<close>

lemma push_contract:
  "(qsc_queue_isfull ctx \<or> width ctx < inlen \<longrightarrow>
      qsc_queue_push ctx input inlen tag = Some ctx) \<and>
   (\<not> qsc_queue_isfull ctx \<and> inlen \<le> width ctx \<and>
    qsc_queue_push ctx input inlen tag = Some ctx' \<longrightarrow>
      (\<exists>q s. queue ctx = Ref q \<and> slot q (unat (position ctx)) = Some s \<and>
         ctx' = ctx\<lparr>queue := Ref (q[unat (position ctx) :=
                                       Ref (take (unat inlen) input @ drop (unat inlen) s)]),
                   tags := (tags ctx)[unat (position ctx) := tag],
                   position := position ctx + 1, count := count ctx + 1\<rparr>)) \<and>
   (\<not> qsc_queue_isfull ctx \<and> inlen \<le> width ctx \<and> queue_inv ctx \<and>
    unat inlen \<le> length input \<longrightarrow>
      (\<exists>ctx''. qsc_queue_push ctx input inlen tag = Some ctx'' \<and> queue_inv ctx'' \<and>
         unat (position ctx) = unat (count ctx) \<and>
         unat (count ctx'') = unat (count ctx) + 1 \<and>
         unat (position ctx'') = unat (position ctx) + 1))"
proof (intro conjI impI)
  assume "qsc_queue_isfull ctx \<or> width ctx < inlen"
  then show "qsc_queue_push ctx input inlen tag = Some ctx" by (rule push_rejected)
next
  assume "\<not> qsc_queue_isfull ctx \<and> inlen \<le> width ctx \<and>
    qsc_queue_push ctx input inlen tag = Some ctx'"
  then show "\<exists>q s. queue ctx = Ref q \<and> slot q (unat (position ctx)) = Some s \<and>
         ctx' = ctx\<lparr>queue := Ref (q[unat (position ctx) :=
                                       Ref (take (unat inlen) input @ drop (unat inlen) s)]),
                   tags := (tags ctx)[unat (position ctx) := tag],
                   position := position ctx + 1, count := count ctx + 1\<rparr>"
    using push_effect [of ctx inlen input tag ctx'] by blast
next
  assume a: "\<not> qsc_queue_isfull ctx \<and> inlen \<le> width ctx \<and> queue_inv ctx \<and>
    unat inlen \<le> length input"
  then have "position ctx = count ctx" using queue_invD(2) by blast
  with a show "\<exists>ctx''. qsc_queue_push ctx input inlen tag = Some ctx'' \<and> queue_inv ctx'' \<and>
         unat (position ctx) = unat (count ctx) \<and>
         unat (count ctx'') = unat (count ctx) + 1 \<and>
         unat (position ctx'') = unat (position ctx) + 1"
    using push_defined [of ctx inlen input tag] by auto
qed

lemma push_contract_example:
  "qsc_queue_isfull two_items \<and> qsc_queue_push two_items [5, 6] 2 30 = Some two_items \<and>
   width empty_2x2 < 3 \<and> qsc_queue_push empty_2x2 [5, 6, 7] 3 30 = Some empty_2x2 \<and>
   \<not> qsc_queue_isfull empty_2x2 \<and> 2 \<le> width empty_2x2 \<and> queue_inv empty_2x2 \<and>
   unat (2 :: size_t) \<le> length [5, 6 :: byte] \<and>
   qsc_queue_push empty_2x2 [5, 6] 2 30 =
     Some (empty_2x2\<lparr>queue := Ref [Ref [5, 6], Ref [0, 0]], tags := 30 # replicate 63 0,
                       position := 1, count := 1\<rparr>)"
proof -
  let ?q = "[Ref [0, 0], Ref [0, 0]] :: byte list pointer list"
  have f: "qsc_queue_isfull two_items" by code_simp
  have w: "width empty_2x2 < 3" by code_simp
  have nf: "\<not> qsc_queue_isfull empty_2x2" by code_simp
  have le: "2 \<le> width empty_2x2" by code_simp
  have inv: "queue_inv empty_2x2" by code_simp
  have len: "unat (2 :: size_t) \<le> length [5, 6 :: byte]" by code_simp
  have r1: "qsc_queue_push two_items [5, 6] 2 30 = Some two_items"
    using push_contract [of two_items 2 "[5, 6]" 30] f by blast
  have r2: "qsc_queue_push empty_2x2 [5, 6, 7] 3 30 = Some empty_2x2"
    using push_contract [of empty_2x2 3 "[5, 6, 7]" 30] w by blast
  obtain c where c: "qsc_queue_push empty_2x2 [5, 6] 2 30 = Some c"
    using push_contract [of empty_2x2 2 "[5, 6]" 30] nf le inv len by blast
  then obtain q s where q: "queue empty_2x2 = Ref q"
    and s: "slot q (unat (position empty_2x2)) = Some s"
    and e: "c = empty_2x2\<lparr>queue := Ref (q[unat (position empty_2x2) :=
                                       Ref (take (unat (2 :: size_t)) [5, 6] @ drop (unat (2 :: size_t)) s)]),
                   tags := (tags empty_2x2)[unat (position empty_2x2) := 30],
                   position := position empty_2x2 + 1, count := count empty_2x2 + 1\<rparr>"
    using push_contract [of empty_2x2 2 "[5, 6]" 30 c] nf le by blast
  have "queue empty_2x2 = Ref ?q" by code_simp
  with q have q': "q = ?q" by simp
  have "slot ?q (unat (position empty_2x2)) = Some [0, 0]" by code_simp
  with s q' have s': "s = [0, 0]" by simp
  have v: "empty_2x2\<lparr>queue := Ref (?q[unat (position empty_2x2) :=
                                       Ref (take (unat (2 :: size_t)) [5, 6] @ drop (unat (2 :: size_t)) [0, 0])]),
                   tags := (tags empty_2x2)[unat (position empty_2x2) := 30],
                   position := position empty_2x2 + 1, count := count empty_2x2 + 1\<rparr>
           = empty_2x2\<lparr>queue := Ref [Ref [5, 6], Ref [0, 0]], tags := 30 # replicate 63 0,
                       position := 1, count := 1\<rparr>" by code_simp
  from e have "c = empty_2x2\<lparr>queue := Ref [Ref [5, 6], Ref [0, 0]], tags := 30 # replicate 63 0,
                       position := 1, count := 1\<rparr>"
    unfolding q' s' v .
  with c f w nf le inv len r1 r2 show ?thesis by blast
qed

lemma deep_queue_reached:
  "run zero_ctx (Initialize 65 1 True {} # replicate 64 (Push [7] 1 165)) = Some deep_queue"
  by code_simp

section \<open>The claims\<close>

text \<open>
  Claim C1, as far as the code goes. On a queue that holds the items \<open>x # xs\<close>,
  oldest first, \<open>qsc_queue_pop\<close> copies the first \<open>outlen\<close> bytes of the oldest item
  \<open>x\<close> to the output and leaves the queue holding \<open>xs\<close>, moved down by one slot,
  with the freed slot and tag zeroed; the tag it returns is the tag of the newest
  item, \<open>snd (last (x # xs))\<close>, not the tag \<open>snd x\<close> pushed with the item it returns.
\<close>

theorem qsc_queue_pop_fifo_newest_tag:
  assumes "mk_queue_ok d w (x # xs) rest"
    and "unat outlen \<le> w" and "unat outlen \<le> length output"
  shows "qsc_queue_pop (mk_queue d w (x # xs) rest) output outlen =
           Some (snd (last (x # xs)), mk_queue d w xs (0 # rest),
                 take (unat outlen) (fst x) @ drop (unat outlen) output)"
  using assms by (rule mk_queue_pop)

theorem qsc_queue_pop_fifo_newest_tag_witness:
  "mk_queue_ok 2 2 [([1, 2], 10), ([3, 4], 20)] (replicate 62 0) \<and>
   unat (2 :: size_t) \<le> 2 \<and> unat (2 :: size_t) \<le> length [0, 0 :: byte] \<and>
   mk_queue 2 2 [([1, 2], 10), ([3, 4], 20)] (replicate 62 0) = two_items \<and>
   qsc_queue_pop two_items [0, 0] 2 =
     Some (20, mk_queue 2 2 [([3, 4], 20)] (0 # replicate 62 0), [1, 2])"
proof -
  have h1: "mk_queue_ok 2 2 [([1, 2], 10), ([3, 4], 20)] (replicate 62 0)"
    by (simp add: mk_queue_ok_def)
  have h2: "unat (2 :: size_t) \<le> 2" by simp
  have h3: "unat (2 :: size_t) \<le> length [0, 0 :: byte]" by simp
  have e: "mk_queue 2 2 [([1, 2], 10), ([3, 4], 20)] (replicate 62 0) = two_items"
    by (simp add: mk_queue_def two_items_def zero_slot_def)
  have t: "snd (last [([1, 2 :: byte], 10 :: uint64_t), ([3, 4], 20)]) = 20" by simp
  have o: "take (unat (2 :: size_t)) (fst ([1, 2 :: byte], 10 :: uint64_t)) @ drop (unat (2 :: size_t)) [0, 0] = [1, 2]"
    by simp
  from qsc_queue_pop_fifo_newest_tag [OF h1 h2 h3]
  have "qsc_queue_pop two_items [0, 0] 2 =
     Some (20, mk_queue 2 2 [([3, 4], 20)] (0 # replicate 62 0), [1, 2])"
    unfolding e t o .
  with h1 h2 h3 e show ?thesis by blast
qed

text \<open>
  Claim C2, as far as the code goes. The guard of \<open>qsc_threadpool_add_task\<close> is
  \<open>tcount <= QSC_THREADPOOL_THREADS_MAX\<close>: when the registry already holds 1024
  handles the call does not return false with the registry unchanged; it stores the
  handle at index 1024 of the 1024-entry array, which is outside the array. (Below
  1024 handles the call records the handle and returns true, above 1024 it returns
  false and changes nothing: \<open>add_task_below_capacity\<close>, \<open>add_task_above_capacity\<close>.)
\<close>

theorem qsc_threadpool_add_task_at_capacity:
  assumes "unat (tcount ctx) = QSC_THREADPOOL_THREADS_MAX"
    and "length (tpool ctx) = QSC_THREADPOOL_THREADS_MAX"
  shows "qsc_threadpool_add_task ctx handle = Inl (Store_outside_array 1024)"
  using assms by (simp add: qsc_threadpool_add_task_def QSC_THREADPOOL_THREADS_MAX_def)

theorem qsc_threadpool_add_task_at_capacity_witness:
  "unat (tcount full_pool) = QSC_THREADPOOL_THREADS_MAX \<and>
   length (tpool full_pool) = QSC_THREADPOOL_THREADS_MAX \<and>
   qsc_threadpool_add_task full_pool 9 = Inl (Store_outside_array 1024)"
proof -
  have h1: "unat (tcount full_pool) = QSC_THREADPOOL_THREADS_MAX"
    by (simp add: full_pool_def QSC_THREADPOOL_THREADS_MAX_def)
  have h2: "length (tpool full_pool) = QSC_THREADPOOL_THREADS_MAX"
    by (simp add: full_pool_def QSC_THREADPOOL_THREADS_MAX_def)
  from qsc_threadpool_add_task_at_capacity [OF h1 h2, of 9] h1 h2 show ?thesis by simp
qed

text \<open>
  Claim C3. The domain-separation constants are SHA3 = 0x06, SHAKE = 0x1F,
  cSHAKE = 0x04, KMAC = 0x04 (so cSHAKE and KMAC share their value) and KPA = 0x41.
\<close>

theorem domain_ids:
  "QSC_KECCAK_SHA3_DOMAIN_ID = 0x06 \<and> QSC_KECCAK_SHAKE_DOMAIN_ID = 0x1F \<and>
   QSC_KECCAK_CSHAKE_DOMAIN_ID = 0x04 \<and> QSC_KECCAK_KMAC_DOMAIN_ID = 0x04 \<and>
   QSC_KECCAK_CSHAKE_DOMAIN_ID = QSC_KECCAK_KMAC_DOMAIN_ID \<and> QSC_KECCAK_KPA_DOMAIN_ID = 0x41"
  by (simp add: QSC_KECCAK_SHA3_DOMAIN_ID_def QSC_KECCAK_SHAKE_DOMAIN_ID_def
      QSC_KECCAK_CSHAKE_DOMAIN_ID_def QSC_KECCAK_KMAC_DOMAIN_ID_def QSC_KECCAK_KPA_DOMAIN_ID_def)

text \<open>
  Claim C4. The Keccak state has 200 bytes; the rates of the 128-, 256- and 512-bit
  levels are 168, 136 and 72 bytes; every rate is below the state size, and the rate
  plus the remaining capacity (200 minus the rate) is the state size.
\<close>

theorem keccak_rates:
  "QSC_KECCAK_STATE_BYTE_SIZE = 200 \<and>
   rate_value qsc_keccak_rate_128 = 168 \<and> rate_value qsc_keccak_rate_256 = 136 \<and>
   rate_value qsc_keccak_rate_512 = 72 \<and>
   rate_value r < QSC_KECCAK_STATE_BYTE_SIZE \<and>
   rate_value r + (QSC_KECCAK_STATE_BYTE_SIZE - rate_value r) = QSC_KECCAK_STATE_BYTE_SIZE"
  by (cases r) (simp_all add: QSC_KECCAK_STATE_BYTE_SIZE_def QSC_KECCAK_128_RATE_def
      QSC_KECCAK_256_RATE_def QSC_KECCAK_512_RATE_def)

text \<open>
  Claim C8, as far as the code goes. \<open>qsc_queue_initialize\<close> takes any depth, but the
  tag array has \<open>QSC_QUEUE_MAX_DEPTH\<close> entries and no function compares the two. When
  \<open>position\<close> has reached the length of the tag array and the queue is not full, a
  push of a length within the slot width is accepted, and its store to
  \<open>tags[position]\<close> is outside the array: the call is undefined, it does not record
  the tag and add one to both counters. (A rejected push changes nothing, and on a
  well-formed queue an accepted push does what the claim says: \<open>push_contract\<close>.)
\<close>

theorem qsc_queue_push_outside_tag_array:
  assumes "\<not> qsc_queue_isfull ctx" and "inlen \<le> width ctx"
    and "length (tags ctx) \<le> unat (position ctx)"
  shows "qsc_queue_push ctx input inlen tag = None"
proof -
  from assms(3) have "upd_opt (tags ctx) (unat (position ctx)) tag = None"
    by (simp add: upd_opt_def)
  then show ?thesis
    using assms(1,2) by (simp add: qsc_queue_push_def bind_eq_None_conv)
qed

theorem qsc_queue_push_outside_tag_array_witness:
  "run zero_ctx (Initialize 65 1 True {} # replicate 64 (Push [7] 1 165)) = Some deep_queue \<and>
   \<not> qsc_queue_isfull deep_queue \<and> 1 \<le> width deep_queue \<and>
   length (tags deep_queue) \<le> unat (position deep_queue) \<and>
   qsc_queue_push deep_queue [7] 1 165 = None"
proof -
  have r: "run zero_ctx (Initialize 65 1 True {} # replicate 64 (Push [7] 1 165)) = Some deep_queue"
    by code_simp
  have h1: "\<not> qsc_queue_isfull deep_queue" by code_simp
  have h2: "1 \<le> width deep_queue" by code_simp
  have h3: "length (tags deep_queue) \<le> unat (position deep_queue)" by code_simp
  from qsc_queue_push_outside_tag_array [OF h1 h2 h3] r h1 h2 h3 show ?thesis by blast
qed

text \<open>
  Claim C9, amended. When the allocation of the slot array fails,
  \<open>qsc_queue_initialize\<close> sets the queue pointer to null and leaves \<open>count\<close> and
  \<open>position\<close> as they were. In every sequence of calls that starts with
  \<open>qsc_queue_initialize\<close> on any structure and meets \<open>calls_ok\<close> (every
  \<open>qsc_queue_initialize\<close> allocates its slot array and all its slots, with a depth
  of at most \<open>QSC_QUEUE_MAX_DEPTH\<close> and below \<open>2 ^ 61\<close>; on a live queue every push
  has an input of \<open>inlen\<close> bytes, every pop an output of \<open>outlen\<close> bytes, every flush
  an output of \<open>depth * width\<close> bytes; \<open>qsc_queue_destroy\<close> is called on a live queue
  only), every call is defined and the state after the sequence has
  \<open>count = position\<close>.
\<close>

theorem count_equals_position:
  "qsc_queue_initialize ctx d w False failed = Some (ctx\<lparr>queue := Null\<rparr>) \<and>
   count (ctx\<lparr>queue := Null\<rparr>) = count ctx \<and> position (ctx\<lparr>queue := Null\<rparr>) = position ctx \<and>
   (calls_ok (QSC_QUEUE_MAX_DEPTH ctx0) Unwritten (Initialize d' w' alloc_q failed' # ops) \<longrightarrow>
      (\<exists>ctx'. run ctx0 (Initialize d' w' alloc_q failed' # ops) = Some ctx' \<and>
              count ctx' = position ctx'))"
proof (intro conjI impI)
  show "qsc_queue_initialize ctx d w False failed = Some (ctx\<lparr>queue := Null\<rparr>)"
    by (simp add: qsc_queue_initialize_def)
  show "count (ctx\<lparr>queue := Null\<rparr>) = count ctx" by simp
  show "position (ctx\<lparr>queue := Null\<rparr>) = position ctx" by simp
next
  assume a: "calls_ok (QSC_QUEUE_MAX_DEPTH ctx0) Unwritten (Initialize d' w' alloc_q failed' # ops)"
  have "in_lifecycle (QSC_QUEUE_MAX_DEPTH ctx0) Unwritten ctx0"
    by (simp add: QSC_QUEUE_MAX_DEPTH_def)
  from calls_defined [OF this a] obtain s' ctx' where
    r: "run ctx0 (Initialize d' w' alloc_q failed' # ops) = Some ctx'"
    and l: "in_lifecycle (QSC_QUEUE_MAX_DEPTH ctx0) s' ctx'" and n: "s' \<noteq> Unwritten"
    by auto
  from lifecycle_counters [OF l n] r
  show "\<exists>ctx'. run ctx0 (Initialize d' w' alloc_q failed' # ops) = Some ctx' \<and>
              count ctx' = position ctx'"
    by blast
qed

theorem count_equals_position_witness:
  "calls_ok (QSC_QUEUE_MAX_DEPTH unwritten_ctx) Unwritten
     [Initialize 2 2 True {}, Push [1, 2] 2 10, Pop [0, 0] 2, Push [3, 4] 2 20,
      Flush [9, 9, 9, 9], Push [5, 6] 2 30, Destroy, Pop [0, 0] 2] \<and>
   (\<exists>ctx'. run unwritten_ctx
     [Initialize 2 2 True {}, Push [1, 2] 2 10, Pop [0, 0] 2, Push [3, 4] 2 20,
      Flush [9, 9, 9, 9], Push [5, 6] 2 30, Destroy, Pop [0, 0] 2] = Some ctx' \<and>
     count ctx' = position ctx')"
proof -
  have h: "calls_ok (QSC_QUEUE_MAX_DEPTH unwritten_ctx) Unwritten
     [Initialize 2 2 True {}, Push [1, 2] 2 10, Pop [0, 0] 2, Push [3, 4] 2 20,
      Flush [9, 9, 9, 9], Push [5, 6] 2 30, Destroy, Pop [0, 0] 2]"
    by (simp add: QSC_QUEUE_MAX_DEPTH_def unwritten_ctx_def)
  from count_equals_position [of _ _ _ _ unwritten_ctx 2 2 True "{}"
      "[Push [1, 2] 2 10, Pop [0, 0] 2, Push [3, 4] 2 20,
      Flush [9, 9, 9, 9], Push [5, 6] 2 30, Destroy, Pop [0, 0] 2]"] h
  show ?thesis by blast
qed

text \<open>
  Claim C9 as stated fails when the allocation of the slot array fails:
  \<open>qsc_queue_initialize\<close> then writes neither counter, and on a structure that was
  never written they differ.
\<close>

theorem count_equals_position_counterexample:
  "run unwritten_ctx [Initialize 2 2 False {}] = Some (unwritten_ctx\<lparr>queue := Null\<rparr>) \<and>
   count (unwritten_ctx\<lparr>queue := Null\<rparr>) \<noteq> position (unwritten_ctx\<lparr>queue := Null\<rparr>)"
  by code_simp

text \<open>
  Claim C10. When the queue is empty or the requested length exceeds the slot width,
  \<open>qsc_queue_pop\<close> returns the tag 0 and leaves the output buffer and the whole
  queue state as they were.
\<close>

theorem qsc_queue_pop_rejected:
  "qsc_queue_isempty ctx \<or> width ctx < outlen \<Longrightarrow>
   qsc_queue_pop ctx output outlen = Some (0, ctx, output)"
  by (auto simp: qsc_queue_pop_def)

theorem qsc_queue_pop_rejected_witness:
  "qsc_queue_isempty empty_2x2 \<and> qsc_queue_pop empty_2x2 [7, 7] 2 = Some (0, empty_2x2, [7, 7]) \<and>
   width two_items < 3 \<and> qsc_queue_pop two_items [7, 7, 7] 3 = Some (0, two_items, [7, 7, 7])"
proof -
  have e: "qsc_queue_isempty empty_2x2" by code_simp
  have w: "width two_items < 3" by code_simp
  from qsc_queue_pop_rejected [of empty_2x2 2 "[7, 7]"] e
  have r1: "qsc_queue_pop empty_2x2 [7, 7] 2 = Some (0, empty_2x2, [7, 7])" by blast
  from qsc_queue_pop_rejected [of two_items 3 "[7, 7, 7]"] w
  have r2: "qsc_queue_pop two_items [7, 7, 7] 3 = Some (0, two_items, [7, 7, 7])" by blast
  from e w r1 r2 show ?thesis by blast
qed

end
